theory Spec2Isabelle
  imports Main
begin

section \<open>Text values\<close>

text \<open>
  A Python \<^verbatim>\<open>str\<close> is a sequence of Unicode code points; \<^verbatim>\<open>len\<close>, slicing and
  indexing count code points. A text is therefore a list of code point numbers.
\<close>

type_synonym ustr = "nat list"

text \<open>
  \<^verbatim>\<open>str.isspace\<close> per character, which is also what \<^verbatim>\<open>str.split()\<close> separates on and
  what \<^verbatim>\<open>\s\<close> matches in a \<^verbatim>\<open>str\<close> pattern: the code points CPython lists as whitespace.
\<close>

definition isspace :: "nat \<Rightarrow> bool" where
  "isspace c \<longleftrightarrow>
     (9 \<le> c \<and> c \<le> 13) \<or> (28 \<le> c \<and> c \<le> 32) \<or> c = 133 \<or> c = 160 \<or> c = 5760 \<or>
     (8192 \<le> c \<and> c \<le> 8202) \<or> c = 8232 \<or> c = 8233 \<or> c = 8239 \<or> c = 8287 \<or> c = 12288"

text \<open>\<^verbatim>\<open>text.split()\<close>: the maximal runs of non-whitespace characters, in order.\<close>

function py_split :: "ustr \<Rightarrow> ustr list" where
  "py_split s =
     (case dropWhile isspace s of
        [] \<Rightarrow> []
      | c # cs \<Rightarrow> takeWhile (\<lambda>x. \<not> isspace x) (c # cs)
                 # py_split (dropWhile (\<lambda>x. \<not> isspace x) (c # cs)))"
  by pat_completeness auto
termination
proof (relation "measure length", goal_cases)
  case 1
  show ?case by simp
next
  case (2 s c cs)
  have "length (dropWhile (\<lambda>x. \<not> isspace x) (c # cs)) \<le> length (c # cs)"
    by (rule length_dropWhile_le)
  moreover have "\<not> isspace c"
    using 2 hd_dropWhile [of isspace s] by (metis list.sel(1) list.distinct(1))
  ultimately have "length (dropWhile (\<lambda>x. \<not> isspace x) (c # cs)) < length (c # cs)"
    by (simp add: length_dropWhile_le le_imp_less_Suc)
  moreover have "length (c # cs) \<le> length s"
    using 2 length_dropWhile_le [of isspace s] by simp
  ultimately show ?case by simp
qed

declare py_split.simps [simp del]

text \<open>\<^verbatim>\<open>" ".join(xs)\<close>.\<close>

fun join_sp :: "ustr list \<Rightarrow> ustr" where
  "join_sp [] = []"
| "join_sp [x] = x"
| "join_sp (x # y # ys) = x @ [32] @ join_sp (y # ys)"


text \<open>A token as \<^verbatim>\<open>split()\<close> yields them: not empty, and free of whitespace.\<close>

definition clean_token :: "ustr \<Rightarrow> bool" where
  "clean_token t \<longleftrightarrow> t \<noteq> [] \<and> (\<forall>c \<in> set t. \<not> isspace c)"

text \<open>A Python literal of ASCII characters, as a text.\<close>

definition asc :: "string \<Rightarrow> ustr" where
  "asc s = map of_char s"

text \<open>\<^verbatim>\<open>xs[-n:]\<close> for a positive \<open>n\<close>: the last \<open>n\<close> items, or all of a shorter list.\<close>

definition py_last_n :: "nat \<Rightarrow> 'a list \<Rightarrow> 'a list" where
  "py_last_n n xs = drop (length xs - n) xs"

text \<open>\<^verbatim>\<open>text.replace(k, v)\<close> where \<open>k\<close> is a single character.\<close>

definition str_replace1 :: "nat \<Rightarrow> ustr \<Rightarrow> ustr \<Rightarrow> ustr" where
  "str_replace1 k v s = concat (map (\<lambda>c. if c = k then v else [c]) s)"

text \<open>
  The Unicode character database behind \<^verbatim>\<open>str.isalpha\<close>, \<^verbatim>\<open>str.lower\<close> and the
  pattern class \<^verbatim>\<open>\d\<close> belongs to the Python runtime, not to the pipeline: the
  pipeline's functions take it as a parameter.
\<close>

record ucd =
  cp_isalpha :: "nat \<Rightarrow> bool"
  cp_isdecimal :: "nat \<Rightarrow> bool"
  str_lower :: "ustr \<Rightarrow> ustr"

text \<open>\<^verbatim>\<open>s.isalpha()\<close>: at least one character, and all of them alphabetic.\<close>

definition isalpha :: "ucd \<Rightarrow> ustr \<Rightarrow> bool" where
  "isalpha U s \<longleftrightarrow> s \<noteq> [] \<and> list_all (cp_isalpha U) s"

text \<open>
  The database restricted to ASCII, where the three functions are the familiar ones;
  it is what Python computes on texts of ASCII characters, and serves to run the
  pipeline on such texts.
\<close>

definition ascii_ucd :: ucd where
  "ascii_ucd =
     \<lparr>cp_isalpha = (\<lambda>c. (65 \<le> c \<and> c \<le> 90) \<or> (97 \<le> c \<and> c \<le> 122)),
      cp_isdecimal = (\<lambda>c. 48 \<le> c \<and> c \<le> 57),
      str_lower = map (\<lambda>c. if 65 \<le> c \<and> c \<le> 90 then c + 32 else c)\<rparr>"

section \<open>Regular expression substitution\<close>

text \<open>
  \<^verbatim>\<open>re.sub(pattern, repl, text)\<close> scans the text from the left; where the pattern
  matches, the replacement of the matched text is emitted and the scan goes on after the
  match; elsewhere the character is copied. A pattern is given by its matcher: the length
  of the match that starts at the head of the remaining text, if there is one. None of
  the pipeline's patterns matches the empty text.
\<close>

function re_sub :: "(ustr \<Rightarrow> nat option) \<Rightarrow> (ustr \<Rightarrow> ustr) \<Rightarrow> ustr \<Rightarrow> ustr" where
  "re_sub m r [] = []"
| "re_sub m r (c # cs) =
     (case m (c # cs) of
        Some (Suc n) \<Rightarrow> r (take (Suc n) (c # cs)) @ re_sub m r (drop n cs)
      | _ \<Rightarrow> c # re_sub m r cs)"
  by pat_completeness auto
termination
  by (relation "measure (\<lambda>(m, r, s). length s)") auto

declare re_sub.simps(2) [simp del]

text \<open>The run of non-whitespace characters \<^verbatim>\<open>\S+\<close> matches: its length, at least 1.\<close>

definition nonspace_run :: "ustr \<Rightarrow> nat option" where
  "nonspace_run s =
     (let n = length (takeWhile (\<lambda>c. \<not> isspace c) s) in if 1 \<le> n then Some n else None)"

text \<open>\<^verbatim>\<open>http[s]?://\S+\<close>\<close>

definition match_url :: "ustr \<Rightarrow> nat option" where
  "match_url s =
     (if take 4 s = asc ''http'' then
        (let k = (if take 1 (drop 4 s) = asc ''s'' then 1 else 0) in
         if take 3 (drop (4 + k) s) = asc ''://'' then
           (case nonspace_run (drop (4 + k + 3) s) of
              Some n \<Rightarrow> Some (4 + k + 3 + n)
            | None \<Rightarrow> None)
         else None)
      else None)"

text \<open>\<^verbatim>\<open>www\.\S+\<close>\<close>

definition match_www :: "ustr \<Rightarrow> nat option" where
  "match_www s =
     (if take 4 s = asc ''www.'' then
        (case nonspace_run (drop 4 s) of Some n \<Rightarrow> Some (4 + n) | None \<Rightarrow> None)
      else None)"

text \<open>
  \<^verbatim>\<open>Page \d+\<close> under \<^verbatim>\<open>re.I\<close>: each letter in either case (no other character
  lowercases to one of p, a, g, e), a space, and a run of decimal digits.
\<close>

definition match_page :: "ucd \<Rightarrow> ustr \<Rightarrow> nat option" where
  "match_page U s =
     (case s of
        c1 # c2 # c3 # c4 # c5 # rest \<Rightarrow>
          if (c1 = 80 \<or> c1 = 112) \<and> (c2 = 65 \<or> c2 = 97) \<and> (c3 = 71 \<or> c3 = 103) \<and>
             (c4 = 69 \<or> c4 = 101) \<and> c5 = 32
          then (let n = length (takeWhile (cp_isdecimal U) rest) in
                if 1 \<le> n then Some (5 + n) else None)
          else None
      | _ \<Rightarrow> None)"

text \<open>\<^verbatim>\<open>[ \t]+\<close>\<close>

definition match_hspace :: "ustr \<Rightarrow> nat option" where
  "match_hspace s =
     (let n = length (takeWhile (\<lambda>c. c = 32 \<or> c = 9) s) in if 1 \<le> n then Some n else None)"

text \<open>\<^verbatim>\<open> *\n *\<close>\<close>

definition match_nl :: "ustr \<Rightarrow> nat option" where
  "match_nl s =
     (let a = length (takeWhile (\<lambda>c. c = 32) s) in
      case drop a s of
        c # rest \<Rightarrow>
          if c = 10 then Some (a + 1 + length (takeWhile (\<lambda>c. c = 32) rest)) else None
      | [] \<Rightarrow> None)"

text \<open>\<^verbatim>\<open>([a-z])-\n([a-z])\<close>, replaced by \<^verbatim>\<open>\1\2\<close>.\<close>

definition lower_az :: "nat \<Rightarrow> bool" where
  "lower_az c \<longleftrightarrow> 97 \<le> c \<and> c \<le> 122"

definition match_hyphen :: "ustr \<Rightarrow> nat option" where
  "match_hyphen s =
     (case s of
        a # h # n # b # rest \<Rightarrow>
          if lower_az a \<and> h = 45 \<and> n = 10 \<and> lower_az b then Some 4 else None
      | _ \<Rightarrow> None)"

definition repl_hyphen :: "ustr \<Rightarrow> ustr" where
  "repl_hyphen matched = (case matched of a # h # n # b # rest \<Rightarrow> [a, b] | _ \<Rightarrow> matched)"

section \<open>TextNormalizer\<close>

text \<open>
  The two dictionaries of the character normalisation, in insertion order, and the
  loop \<^verbatim>\<open>for k,v in d.items(): text = text.replace(k, v)\<close>.
\<close>

definition ligatures :: "(nat \<times> ustr) list" where
  "ligatures =
     [(0xFB01, asc ''fi''), (0xFB02, asc ''fl''), (0xFB00, asc ''ff''),
      (0xFB03, asc ''ffi''), (0xFB04, asc ''ffl'')]"

definition quotes :: "(nat \<times> ustr) list" where
  "quotes =
     [(0x2019, [39]), (0x2018, [39]), (0x201C, [34]), (0x201D, [34]),
      (0x2013, asc ''-''), (0x2014, asc ''-''), (0x2212, asc ''-'')]"

definition replace_all :: "(nat \<times> ustr) list \<Rightarrow> ustr \<Rightarrow> ustr" where
  "replace_all d text = foldl (\<lambda>t (k, v). str_replace1 k v t) text d"

text \<open>\<^verbatim>\<open>re.sub(r'[\u200B-\u200D\uFEFF]', '', text)\<close>: a one-character class.\<close>

definition zero_width :: "nat \<Rightarrow> bool" where
  "zero_width c \<longleftrightarrow> (0x200B \<le> c \<and> c \<le> 0x200D) \<or> c = 0xFEFF"

definition remove_zero_width :: "ustr \<Rightarrow> ustr" where
  "remove_zero_width text = filter (\<lambda>c. \<not> zero_width c) text"

definition char_normalize :: "ustr \<Rightarrow> ustr" where
  "char_normalize text = remove_zero_width (replace_all quotes (replace_all ligatures text))"

definition remove_artifacts :: "ucd \<Rightarrow> ustr \<Rightarrow> ustr" where
  "remove_artifacts U text =
     re_sub (match_page U) (\<lambda>_. [])
       (re_sub match_www (\<lambda>_. []) (re_sub match_url (\<lambda>_. []) text))"

definition whitespace_normalize :: "ustr \<Rightarrow> ustr" where
  "whitespace_normalize text =
     re_sub match_nl (\<lambda>_. [10]) (re_sub match_hspace (\<lambda>_. [32]) text)"

definition hyphen_fix :: "ustr \<Rightarrow> ustr" where
  "hyphen_fix text = re_sub match_hyphen repl_hyphen text"

definition TextNormalizer :: "ucd \<Rightarrow> ustr \<Rightarrow> ustr" where
  "TextNormalizer U text =
     hyphen_fix (whitespace_normalize (remove_artifacts U (char_normalize text)))"

text \<open>
  Properties of a text that the idempotence of the normalizer turns on. A pattern has
  no match in a text when its matcher finds none at any position. A special character
  is one that the character normalisation replaces or removes. A text is single-spaced
  when it has no tab and no two spaces in a row, and tidy when, moreover, no space
  stands next to a newline.
\<close>

fun no_match :: "(ustr \<Rightarrow> nat option) \<Rightarrow> ustr \<Rightarrow> bool" where
  "no_match m [] = True"
| "no_match m (c # cs) = (m (c # cs) = None \<and> no_match m cs)"

definition special :: "nat \<Rightarrow> bool" where
  "special c \<longleftrightarrow> c \<in> fst ` set ligatures \<or> c \<in> fst ` set quotes \<or> zero_width c"

fun single_spaced :: "ustr \<Rightarrow> bool" where
  "single_spaced [] = True"
| "single_spaced [c] = (c \<noteq> 9)"
| "single_spaced (a # b # cs) = (a \<noteq> 9 \<and> \<not> (a = 32 \<and> b = 32) \<and> single_spaced (b # cs))"

fun tidy :: "ustr \<Rightarrow> bool" where
  "tidy [] = True"
| "tidy [c] = (c \<noteq> 9)"
| "tidy (a # b # cs) =
     (a \<noteq> 9 \<and> \<not> (a = 32 \<and> b = 32) \<and> \<not> (a = 32 \<and> b = 10) \<and> \<not> (a = 10 \<and> b = 32) \<and>
      tidy (b # cs))"

section \<open>DictionaryRepairer\<close>

text \<open>
  The Lexicon \<^verbatim>\<open>word_set\<close> is a set of texts. Both passes run only under
  \<^verbatim>\<open>if word_set:\<close>, that is, when the set is not empty.
\<close>

type_synonym lexicon = "ustr set"

text \<open>
  The join pass: the \<^verbatim>\<open>while i < len(tokens)\<close> loop with its index \<open>i\<close>, the list
  \<open>fixed\<close> and the two counters. Its result is \<open>(fixed, broken_pairs, joins)\<close>.
\<close>

function join_loop ::
  "ucd \<Rightarrow> lexicon \<Rightarrow> ustr list \<Rightarrow> nat \<Rightarrow> ustr list \<Rightarrow> nat \<Rightarrow> nat \<Rightarrow> ustr list \<times> nat \<times> nat"
where
  "join_loop U W tokens i fixed broken_pairs joins =
     (if i < length tokens then
        (if i + 1 < length tokens \<and> length (tokens ! i) \<le> 2 \<and>
            isalpha U (tokens ! i) \<and> isalpha U (tokens ! (i + 1))
         then
           (if str_lower U (tokens ! i @ tokens ! (i + 1)) \<in> W
            then join_loop U W tokens (i + 2) (fixed @ [tokens ! i @ tokens ! (i + 1)])
                   (broken_pairs + 1) (joins + 1)
            else join_loop U W tokens (i + 1) (fixed @ [tokens ! i]) (broken_pairs + 1) joins)
         else join_loop U W tokens (i + 1) (fixed @ [tokens ! i]) broken_pairs joins)
      else (fixed, broken_pairs, joins))"
  by pat_completeness auto
termination
  by (relation "measure (\<lambda>(U, W, tokens, i, fixed, bp, j). length tokens - i)") auto

declare join_loop.simps [simp del]

text \<open>The pass on the text: the new text, \<open>broken_pairs\<close> and \<open>joins\<close>.\<close>

definition join_pass :: "ucd \<Rightarrow> lexicon \<Rightarrow> ustr \<Rightarrow> ustr \<times> nat \<times> nat" where
  "join_pass U W text =
     (if W \<noteq> {} then
        (case join_loop U W (py_split text) 0 [] 0 0 of
           (fixed, broken_pairs, joins) \<Rightarrow> (join_sp fixed, broken_pairs, joins))
      else (text, 0, 0))"

text \<open>
  The split pass. The inner loop \<^verbatim>\<open>for cut in range(1, len(tok))\<close> stops at the first
  cut whose two halves of \<open>low\<close> are both in the Lexicon and yields the repaired token.
\<close>

fun try_cuts :: "lexicon \<Rightarrow> ustr \<Rightarrow> nat list \<Rightarrow> ustr option" where
  "try_cuts W low [] = None"
| "try_cuts W low (cut_at # cuts) =
     (if take cut_at low \<in> W \<and> drop cut_at low \<in> W
      then Some (take cut_at low @ asc '' '' @ drop cut_at low)
      else try_cuts W low cuts)"

text \<open>The outer loop \<^verbatim>\<open>for tok in tokens\<close>, with \<open>fixed\<close> and \<open>split_fixes\<close>.\<close>

fun split_loop :: "ucd \<Rightarrow> lexicon \<Rightarrow> ustr list \<Rightarrow> ustr list \<Rightarrow> nat \<Rightarrow> ustr list \<times> nat" where
  "split_loop U W [] fixed split_fixes = (fixed, split_fixes)"
| "split_loop U W (tok # toks) fixed split_fixes =
     (if str_lower U tok \<in> W \<or> \<not> isalpha U tok \<or> length tok < 4
      then split_loop U W toks (fixed @ [tok]) split_fixes
      else
        (case try_cuts W (str_lower U tok) [1..<length tok] of
           Some repaired \<Rightarrow> split_loop U W toks (fixed @ [repaired]) (split_fixes + 1)
         | None \<Rightarrow> split_loop U W toks (fixed @ [tok]) split_fixes))"

declare split_loop.simps [simp del]

definition split_pass :: "ucd \<Rightarrow> lexicon \<Rightarrow> ustr \<Rightarrow> ustr \<times> nat" where
  "split_pass U W text =
     (if W \<noteq> {} then
        (case split_loop U W (py_split text) [] 0 of
           (fixed, split_fixes) \<Rightarrow> (join_sp fixed, split_fixes))
      else (text, 0))"

text \<open>
  The repairer: the join pass, then the split pass on its text. The result is the
  text and the counters \<open>broken_pairs\<close>, \<open>joins\<close> and \<open>split_fixes\<close>.
\<close>

definition DictionaryRepairer :: "ucd \<Rightarrow> lexicon \<Rightarrow> ustr \<Rightarrow> ustr \<times> nat \<times> nat \<times> nat" where
  "DictionaryRepairer U W text =
     (case join_pass U W text of
        (text1, broken_pairs, joins) \<Rightarrow>
          (case split_pass U W text1 of
             (text2, split_fixes) \<Rightarrow> (text2, broken_pairs, joins, split_fixes)))"

text \<open>
  The join pass in the words of the specification, on the list of tokens: a pair whose
  first token has at most two characters and whose tokens are both alphabetic is a broken
  pair; it is merged when the lowercase concatenation is in the Lexicon, and the scan
  then advances by two tokens; otherwise the first token is kept and the scan advances by
  one. The result is the tokens, the broken pairs and the joins.
\<close>

fun join_scan :: "ucd \<Rightarrow> lexicon \<Rightarrow> ustr list \<Rightarrow> ustr list \<times> nat \<times> nat" where
  "join_scan U W [] = ([], 0, 0)"
| "join_scan U W [a] = ([a], 0, 0)"
| "join_scan U W (a # b # rest) =
     (if length a \<le> 2 \<and> isalpha U a \<and> isalpha U b then
        (if str_lower U (a @ b) \<in> W
         then (case join_scan U W rest of (f, bp, j) \<Rightarrow> ((a @ b) # f, bp + 1, j + 1))
         else (case join_scan U W (b # rest) of (f, bp, j) \<Rightarrow> (a # f, bp + 1, j)))
      else (case join_scan U W (b # rest) of (f, bp, j) \<Rightarrow> (a # f, bp, j)))"

text \<open>
  The split pass in the words of the specification: a token is split when its lowercase
  form is not in the Lexicon, it is alphabetic, it has at least four characters, and
  some cut position from 1 to its length less one leaves both lowercase halves in the
  Lexicon; the cut taken is the lowest such position.
\<close>

definition splittable :: "ucd \<Rightarrow> lexicon \<Rightarrow> ustr \<Rightarrow> bool" where
  "splittable U W tok \<longleftrightarrow>
     str_lower U tok \<notin> W \<and> isalpha U tok \<and> 4 \<le> length tok \<and>
     (\<exists>c. 1 \<le> c \<and> c < length tok \<and>
        take c (str_lower U tok) \<in> W \<and> drop c (str_lower U tok) \<in> W)"

definition lowest_cut :: "ucd \<Rightarrow> lexicon \<Rightarrow> ustr \<Rightarrow> nat" where
  "lowest_cut U W tok =
     (LEAST c. 1 \<le> c \<and> c < length tok \<and>
        take c (str_lower U tok) \<in> W \<and> drop c (str_lower U tok) \<in> W)"

text \<open>
  The tokens that the split pass leaves in the place of one token: the two lowercase
  halves at the lowest cut when the token is split, the token itself otherwise.
\<close>

definition split_words :: "ucd \<Rightarrow> lexicon \<Rightarrow> ustr \<Rightarrow> ustr list" where
  "split_words U W tok =
     (if splittable U W tok
      then [take (lowest_cut U W tok) (str_lower U tok), drop (lowest_cut U W tok) (str_lower U tok)]
      else [tok])"

section \<open>ChunkAssembler\<close>

definition CHUNK_WORDS :: nat where
  "CHUNK_WORDS = 180"

definition OVERLAP_WORDS :: nat where
  "OVERLAP_WORDS = 30"

text \<open>
  The loop \<^verbatim>\<open>for sent in good\<close> with its state, the list \<open>chunks\<close> emitted so far and
  the buffer \<open>current_words\<close>.
\<close>

fun chunk_loop :: "ustr list \<Rightarrow> ustr list \<Rightarrow> ustr list \<Rightarrow> ustr list \<times> ustr list" where
  "chunk_loop [] chunks current_words = (chunks, current_words)"
| "chunk_loop (sent # good) chunks current_words =
     (if length current_words + length (py_split sent) \<le> CHUNK_WORDS
      then chunk_loop good chunks (current_words @ py_split sent)
      else chunk_loop good
             (if length current_words > 80 then chunks @ [join_sp current_words] else chunks)
             (py_last_n OVERLAP_WORDS current_words @ py_split sent))"

text \<open>The whole assembler: the loop from the empty state, then the last chunk.\<close>

definition ChunkAssembler :: "ustr list \<Rightarrow> ustr list" where
  "ChunkAssembler good =
     (case chunk_loop good [] [] of
        (chunks, current_words) \<Rightarrow>
          if length current_words > 80 then chunks @ [join_sp current_words] else chunks)"

text \<open>
  The buffers that a run of the loop drops: for each sentence that does not fit while
  the buffer holds at most 80 words, the number of chunks emitted so far. The three
  branches are those of \<open>chunk_loop\<close>.
\<close>

fun drops :: "ustr list \<Rightarrow> ustr list \<Rightarrow> ustr list \<Rightarrow> nat list" where
  "drops [] chunks current_words = []"
| "drops (sent # good) chunks current_words =
     (if length current_words + length (py_split sent) \<le> CHUNK_WORDS
      then drops good chunks (current_words @ py_split sent)
      else if length current_words > 80
      then drops good (chunks @ [join_sp current_words])
             (py_last_n OVERLAP_WORDS current_words @ py_split sent)
      else length chunks
           # drops good chunks (py_last_n OVERLAP_WORDS current_words @ py_split sent))"

text \<open>
  Sentences to run the assembler on: \<open>words_sentence a b\<close> is the sentence of the
  numbered words \<^verbatim>\<open>w000\<close>, \<^verbatim>\<open>w001\<close>, ... from number \<open>a\<close> up to \<open>b - 1\<close>. The assembler
  takes the kept sentences as a list and looks at their words only.
\<close>

definition wd :: "nat \<Rightarrow> ustr" where
  "wd i = [119, 48 + (i div 100) mod 10, 48 + (i div 10) mod 10, 48 + i mod 10]"

definition words_sentence :: "nat \<Rightarrow> nat \<Rightarrow> ustr" where
  "words_sentence a b = join_sp (map wd [a..<b])"

section \<open>DatasetExporter\<close>

record chunk_record =
  rec_id :: nat
  rec_text :: ustr
  word_count :: nat

record pair_example =
  text_a :: ustr
  text_b :: ustr
  label :: nat

text \<open>
  The module \<^verbatim>\<open>random\<close> of the Python library, with a generator state of type \<open>'g\<close>:
  \<^item> \<open>rnd_seed a\<close> is the state \<^verbatim>\<open>random.seed(a)\<close> sets, whatever the state before;
  \<^item> \<open>rnd_sample2 population g\<close> gives the two items that
    \<^verbatim>\<open>random.sample(population, 2)\<close> selects, and the next state;
  \<^item> \<open>rnd_shuffle x g\<close> gives the list as \<^verbatim>\<open>random.shuffle(x)\<close> leaves it, and the
    next state.
  The exporter samples from lists of chunks and shuffles lists of records.
\<close>

record 'g random_module =
  rnd_seed :: "int \<Rightarrow> 'g"
  rnd_sample2 :: "ustr list \<Rightarrow> 'g \<Rightarrow> (ustr \<times> ustr) \<times> 'g"
  rnd_shuffle :: "chunk_record list \<Rightarrow> 'g \<Rightarrow> chunk_record list \<times> 'g"

text \<open>
  What the library documents of \<^verbatim>\<open>random.sample\<close>: the selections come from
  different positions of the population.
\<close>

definition sample_distinct :: "'g random_module \<Rightarrow> bool" where
  "sample_distinct R \<longleftrightarrow>
     (\<forall>population g. 2 \<le> length population \<longrightarrow>
        (case fst (rnd_sample2 R population g) of
           (a, b) \<Rightarrow>
             \<exists>i j. i < length population \<and> j < length population \<and> i \<noteq> j \<and>
               a = population ! i \<and> b = population ! j))"

text \<open>
  A small generator to run the exporter with: the state is a counter. It selects
  different positions, and it rotates where the library shuffles.
\<close>

definition counter_random :: "nat random_module" where
  "counter_random =
     \<lparr>rnd_seed = (\<lambda>a. nat \<bar>a\<bar>),
      rnd_sample2 = (\<lambda>population g.
        (let n = length population; i = g mod n; j = (i + 1 + (g div n) mod (n - 1)) mod n
         in ((population ! i, population ! j), g + 1))),
      rnd_shuffle = (\<lambda>x g. (rotate (g mod length x) x, g + 1))\<rparr>"

text \<open>The quote and dash replacement applied to every chunk that is loaded.\<close>

definition clean_chunk :: "ustr \<Rightarrow> ustr" where
  "clean_chunk c =
     str_replace1 0x2014 (asc ''-'')
       (str_replace1 0x2019 [39]
          (str_replace1 0x2018 [39]
             (str_replace1 0x201D [34] (str_replace1 0x201C [34] c))))"

definition make_records :: "ustr list \<Rightarrow> chunk_record list" where
  "make_records chunks =
     map (\<lambda>(i, c). \<lparr>rec_id = i, rec_text = c, word_count = length (py_split c)\<rparr>)
       (enumerate 0 chunks)"

text \<open>The positive pairs: \<^verbatim>\<open>for i in range(len(chunks) - 1)\<close>.\<close>

definition positive_pairs :: "ustr list \<Rightarrow> pair_example list" where
  "positive_pairs chunks =
     map (\<lambda>i. \<lparr>text_a = chunks ! i, text_b = chunks ! (i + 1), label = 1\<rparr>)
       [0..<length chunks - 1]"

text \<open>
  The negative pairs: \<^verbatim>\<open>for _ in range(len(chunks))\<close>, one sample and one record per
  round; \<open>k\<close> counts the rounds that remain.
\<close>

fun negative_loop ::
  "'g random_module \<Rightarrow> ustr list \<Rightarrow> nat \<Rightarrow> 'g \<Rightarrow> pair_example list \<Rightarrow> pair_example list \<times> 'g"
where
  "negative_loop R chunks 0 g pairs = (pairs, g)"
| "negative_loop R chunks (Suc k) g pairs =
     (case rnd_sample2 R chunks g of
        ((a, b), g') \<Rightarrow>
          negative_loop R chunks k g' (pairs @ [\<lparr>text_a = a, text_b = b, label = 0\<rparr>]))"

text \<open>
  The pair dataset. The generator is seeded with 42 before the negative pairs,
  which are added only when there are at least two chunks.
\<close>

definition export_pairs :: "'g random_module \<Rightarrow> 'g \<Rightarrow> ustr list \<Rightarrow> pair_example list \<times> 'g" where
  "export_pairs R g chunks =
     (let pairs = positive_pairs chunks; g1 = rnd_seed R 42 in
      if 2 \<le> length chunks then negative_loop R chunks (length chunks) g1 pairs
      else (pairs, g1))"

text \<open>
  The split. The generator is seeded with 42 again, then the records are shuffled
  and cut at \<^verbatim>\<open>int(n * 0.8)\<close> and \<^verbatim>\<open>int(n * 0.9)\<close>, here in integer arithmetic.
\<close>

definition export_split ::
  "'g random_module \<Rightarrow> 'g \<Rightarrow> chunk_record list \<Rightarrow>
   (chunk_record list \<times> chunk_record list \<times> chunk_record list) \<times> 'g"
where
  "export_split R g records =
     (let g1 = rnd_seed R 42 in
      case rnd_shuffle R records g1 of
        (shuffled, g2) \<Rightarrow>
          (let n = length shuffled;
               train_end = (n * 8) div 10;
               val_end = (n * 9) div 10
           in ((take train_end shuffled,
                take (val_end - train_end) (drop train_end shuffled),
                drop val_end shuffled), g2)))"

text \<open>
  The exporter on the chunks it loads, from the state \<open>g\<close> in which it finds the
  generator: the records, the pairs and the split.
\<close>

definition DatasetExporter ::
  "'g random_module \<Rightarrow> 'g \<Rightarrow> ustr list \<Rightarrow>
   chunk_record list \<times> pair_example list \<times>
   (chunk_record list \<times> chunk_record list \<times> chunk_record list)"
where
  "DatasetExporter R g raw_chunks =
     (let chunks = map clean_chunk raw_chunks;
          records = make_records chunks
      in case export_pairs R g chunks of
           (pairs, g1) \<Rightarrow>
             (case export_split R g1 records of
                (split, g2) \<Rightarrow> (records, pairs, split)))"

text \<open>
  The claim's words "the two texts come from consecutive positions in the chunk
  sequence", for a pair record: in either order.
\<close>

definition from_adjacent :: "ustr list \<Rightarrow> pair_example \<Rightarrow> bool" where
  "from_adjacent chunks p \<longleftrightarrow>
     (\<exists>i. i + 1 < length chunks \<and>
        ((text_a p = chunks ! i \<and> text_b p = chunks ! (i + 1)) \<or>
         (text_a p = chunks ! (i + 1) \<and> text_b p = chunks ! i)))"

section \<open>Splitting and joining\<close>

lemma py_split_clean: "t \<in> set (py_split s) \<Longrightarrow> clean_token t"
proof (induction s arbitrary: t rule: py_split.induct)
  case (1 s)
  show ?case
  proof (cases "dropWhile isspace s")
    case Nil
    with "1.prems" show ?thesis by (simp add: py_split.simps [of s])
  next
    case (Cons c cs)
    then have c: "\<not> isspace c"
      using hd_dropWhile [of isspace s] by (metis list.sel(1) list.distinct(1))
    from "1.prems" Cons
    consider "t = takeWhile (\<lambda>x. \<not> isspace x) (c # cs)"
      | "t \<in> set (py_split (dropWhile (\<lambda>x. \<not> isspace x) (c # cs)))"
      by (auto simp: py_split.simps [of s])
    then show ?thesis
    proof cases
      case 1
      then have "t = c # takeWhile (\<lambda>x. \<not> isspace x) cs" using c by simp
      moreover have "\<forall>x \<in> set (takeWhile (\<lambda>x. \<not> isspace x) cs). \<not> isspace x"
        by (auto dest: set_takeWhileD)
      ultimately show ?thesis using c by (simp add: clean_token_def)
    next
      case 2
      then show ?thesis using "1.IH" [OF Cons] by simp
    qed
  qed
qed

lemma py_split_skip: "py_split (dropWhile isspace s) = py_split s"
  by (simp add: py_split.simps [of s] py_split.simps [of "dropWhile isspace s"])

lemma py_split_space: "isspace c \<Longrightarrow> py_split (c # s) = py_split s"
  using py_split_skip [of "c # s"] py_split_skip [of s] by simp

lemma py_split_token:
  assumes "clean_token t" and "rest = [] \<or> isspace (hd rest)"
  shows "py_split (t @ rest) = t # py_split rest"
proof -
  obtain c cs where t: "t = c # cs" and c: "\<not> isspace c"
    using assms(1) by (cases t) (auto simp: clean_token_def)
  have all: "\<forall>x \<in> set t. \<not> isspace x"
    using assms(1) by (simp add: clean_token_def)
  have d: "dropWhile isspace (t @ rest) = t @ rest"
    using t c by simp
  have tw: "takeWhile (\<lambda>x. \<not> isspace x) (t @ rest) = t"
    using all assms(2) by (cases rest) (simp_all add: takeWhile_append2)
  have dw: "dropWhile (\<lambda>x. \<not> isspace x) (t @ rest) = rest"
    using all assms(2) by (cases rest) (simp_all add: dropWhile_append2)
  have "py_split (t @ rest) =
      takeWhile (\<lambda>x. \<not> isspace x) (t @ rest) # py_split (dropWhile (\<lambda>x. \<not> isspace x) (t @ rest))"
    using d t by (subst py_split.simps) simp
  then show ?thesis by (simp add: tw dw)
qed

lemma py_split_Nil: "py_split [] = []"
  by (simp add: py_split.simps)

lemma isspace_32: "isspace 32"
  by (simp add: isspace_def)

lemma py_split_join:
  "\<forall>t \<in> set ts. clean_token t \<Longrightarrow> py_split (join_sp ts) = ts"
proof (induction ts rule: join_sp.induct)
  case 1
  then show ?case by (simp add: py_split_Nil)
next
  case (2 x)
  then show ?case using py_split_token [of x "[]"] by (simp add: py_split_Nil)
next
  case (3 x y ys)
  have "py_split (x @ [32] @ join_sp (y # ys)) = x # py_split ([32] @ join_sp (y # ys))"
    using 3 by (intro py_split_token) (simp_all add: isspace_32)
  also have "py_split ([32] @ join_sp (y # ys)) = py_split (join_sp (y # ys))"
    using py_split_space [OF isspace_32] by simp
  finally show ?case using 3 by simp
qed

lemma join_sp_chars: "set (join_sp ts) \<subseteq> \<Union> (set ` set ts) \<union> {32}"
  by (induction ts rule: join_sp.induct) auto

lemma join_sp_clean:
  assumes "\<forall>t \<in> set ts. clean_token t" and "c \<in> set (join_sp ts)" and "isspace c"
  shows "c = 32"
  using join_sp_chars [of ts] assms by (auto simp: clean_token_def)

section \<open>TextNormalizer: applying it twice\<close>

lemma re_sub_no_match: "no_match m s \<Longrightarrow> re_sub m r s = s"
  by (induction s) (auto simp: re_sub.simps)

lemma re_sub_match:
  "m (c # cs) = Some (Suc n) \<Longrightarrow>
     re_sub m r (c # cs) = r (take (Suc n) (c # cs)) @ re_sub m r (drop n cs)"
  by (simp add: re_sub.simps)

lemma re_sub_skip: "m (c # cs) = None \<Longrightarrow> re_sub m r (c # cs) = c # re_sub m r cs"
  by (simp add: re_sub.simps)

lemma re_sub_chars:
  assumes "\<And>t n. m t = Some (Suc n) \<Longrightarrow> set (r (take (Suc n) t)) \<subseteq> set t \<union> A"
  shows "set (re_sub m r s) \<subseteq> set s \<union> A"
  using assms
proof (induction m r s rule: re_sub.induct)
  case (1 m r)
  then show ?case by simp
next
  case (2 m r c cs)
  show ?case
  proof (cases "m (c # cs)")
    case None
    then show ?thesis using 2 by (auto simp: re_sub.simps)
  next
    case (Some k)
    show ?thesis
    proof (cases k)
      case 0
      then show ?thesis using 2 Some by (auto simp: re_sub.simps)
    next
      case (Suc n)
      have e: "m (c # cs) = Some (Suc n)" using Some Suc by simp
      have d: "set (drop n cs) \<subseteq> set cs" by (rule set_drop_subset)
      have "set (re_sub m r (drop n cs)) \<subseteq> set (drop n cs) \<union> A"
        using "2.IH"(3) [OF Some Suc] "2.prems" by blast
      moreover have "set (r (take (Suc n) (c # cs))) \<subseteq> set (c # cs) \<union> A"
        using "2.prems" [OF e] .
      ultimately show ?thesis
        using d by (simp add: re_sub_match [of m c cs n r, OF e]) blast
    qed
  qed
qed


lemma str_replace1_absent: "k \<notin> set s \<Longrightarrow> str_replace1 k v s = s"
  unfolding str_replace1_def by (induction s) auto

lemma str_replace1_chars:
  "set (str_replace1 k v s) \<subseteq> (set s - {k}) \<union> set v"
  unfolding str_replace1_def by auto

lemma replace_all_absent:
  "\<forall>c \<in> set s. c \<notin> fst ` set d \<Longrightarrow> replace_all d s = s"
  unfolding replace_all_def
proof (induction d arbitrary: s)
  case Nil
  then show ?case by simp
next
  case (Cons kv d)
  obtain k v where kv: "kv = (k, v)" by (cases kv)
  have "k \<notin> set s"
    using Cons.prems kv by auto
  then have "str_replace1 k v s = s"
    by (rule str_replace1_absent)
  moreover have "foldl (\<lambda>t (k, v). str_replace1 k v t) s d = s"
    using Cons.prems by (intro Cons.IH) auto
  ultimately show ?case
    by (simp add: kv)
qed

lemma replace_all_chars:
  "set (replace_all d s) \<subseteq> (set s - fst ` set d) \<union> (\<Union>(k, v) \<in> set d. set v)"
  unfolding replace_all_def
proof (induction d arbitrary: s)
  case Nil
  then show ?case by simp
next
  case (Cons kv d)
  obtain k v where kv: "kv = (k, v)" by (cases kv)
  have "set (foldl (\<lambda>t (k, v). str_replace1 k v t) (str_replace1 k v s) d)
      \<subseteq> (set (str_replace1 k v s) - fst ` set d) \<union> (\<Union>(k, v) \<in> set d. set v)"
    by (rule Cons.IH)
  then show ?case
    using str_replace1_chars [of k v s] unfolding kv by auto
qed

lemma char_normalize_clean: "c \<in> set (char_normalize s) \<Longrightarrow> \<not> special c"
proof -
  assume c: "c \<in> set (char_normalize s)"
  let ?l = "replace_all ligatures s"
  let ?q = "replace_all quotes ?l"
  have z: "\<not> zero_width c" and cq: "c \<in> set ?q"
    using c by (auto simp: char_normalize_def remove_zero_width_def)
  have lv: "(\<Union>(k, v) \<in> set ligatures. set v) = {102, 105, 108}"
    by (auto simp: ligatures_def asc_def)
  have qv: "(\<Union>(k, v) \<in> set quotes. set v) = {39, 34, 45}"
    by (auto simp: quotes_def asc_def)
  have lk: "fst ` set ligatures = {0xFB01, 0xFB02, 0xFB00, 0xFB03, 0xFB04}"
    by (simp add: ligatures_def)
  have qk: "fst ` set quotes = {0x2019, 0x2018, 0x201C, 0x201D, 0x2013, 0x2014, 0x2212}"
    by (simp add: quotes_def)
  have q: "c \<notin> fst ` set quotes" and "c \<in> set ?l \<or> c \<in> {39, 34, 45}"
    using replace_all_chars [of quotes ?l] cq unfolding qv qk by auto
  moreover have "c \<in> set ?l \<Longrightarrow> c \<notin> fst ` set ligatures"
    using replace_all_chars [of ligatures s] unfolding lv lk by auto
  moreover have "c \<in> {39, 34, 45} \<Longrightarrow> c \<notin> fst ` set ligatures"
    unfolding lk by auto
  ultimately show ?thesis
    using z by (auto simp: special_def)
qed

lemma char_normalize_id:
  assumes "\<forall>c \<in> set s. \<not> special c"
  shows "char_normalize s = s"
proof -
  have "replace_all ligatures s = s"
    using assms by (intro replace_all_absent) (auto simp: special_def)
  moreover have "replace_all quotes s = s"
    using assms by (intro replace_all_absent) (auto simp: special_def)
  moreover have "remove_zero_width s = s"
    using assms by (auto simp: remove_zero_width_def special_def)
  ultimately show ?thesis by (simp add: char_normalize_def)
qed


lemma single_spaced_Cons:
  "single_spaced (c # xs) \<longleftrightarrow>
     c \<noteq> 9 \<and> (xs \<noteq> [] \<longrightarrow> \<not> (c = 32 \<and> hd xs = 32)) \<and> single_spaced xs"
  by (cases xs) auto

lemma tidy_Cons:
  "tidy (c # xs) \<longleftrightarrow>
     c \<noteq> 9 \<and>
     (xs \<noteq> [] \<longrightarrow> \<not> (c = 32 \<and> hd xs = 32) \<and> \<not> (c = 32 \<and> hd xs = 10) \<and> \<not> (c = 10 \<and> hd xs = 32)) \<and>
     tidy xs"
  by (cases xs) auto

lemma single_spaced_drop: "single_spaced s \<Longrightarrow> single_spaced (drop n s)"
proof (induction n arbitrary: s)
  case 0
  then show ?case by simp
next
  case (Suc n)
  then show ?case by (cases s) (auto simp: single_spaced_Cons)
qed

lemma tidy_drop: "tidy s \<Longrightarrow> tidy (drop n s)"
proof (induction n arbitrary: s)
  case 0
  then show ?case by simp
next
  case (Suc n)
  then show ?case by (cases s) (auto simp: tidy_Cons)
qed

lemma tidy_single_spaced: "tidy s \<Longrightarrow> single_spaced s"
  by (induction s) (auto simp: tidy_Cons single_spaced_Cons)

subsection \<open>Runs of spaces and tabs\<close>

lemma match_hspace_Cons:
  "match_hspace (c # cs) =
     (if c = 32 \<or> c = 9 then Some (Suc (length (takeWhile (\<lambda>c. c = 32 \<or> c = 9) cs))) else None)"
  by (simp add: match_hspace_def)

lemma hspace_skip:
  "\<not> (c = 32 \<or> c = 9) \<Longrightarrow>
     re_sub match_hspace (\<lambda>_. [32]) (c # cs) = c # re_sub match_hspace (\<lambda>_. [32]) cs"
  by (simp add: re_sub_skip match_hspace_Cons)

lemma hspace_match:
  "c = 32 \<or> c = 9 \<Longrightarrow>
     re_sub match_hspace (\<lambda>_. [32]) (c # cs) =
       32 # re_sub match_hspace (\<lambda>_. [32]) (dropWhile (\<lambda>c. c = 32 \<or> c = 9) cs)"
  using re_sub_match [of match_hspace c cs "length (takeWhile (\<lambda>c. c = 32 \<or> c = 9) cs)" "\<lambda>_. [32]"]
  by (simp add: match_hspace_Cons dropWhile_eq_drop)

lemma hspace_single_spaced: "single_spaced (re_sub match_hspace (\<lambda>_. [32]) s)"
proof (induction "length s" arbitrary: s rule: less_induct)
  case less
  show ?case
  proof (cases s)
    case Nil
    then show ?thesis by simp
  next
    case (Cons c cs)
    show ?thesis
    proof (cases "c = 32 \<or> c = 9")
      case False
      have "single_spaced (re_sub match_hspace (\<lambda>_. [32]) cs)"
        using less [of cs] Cons by simp
      then show ?thesis
        using False unfolding Cons by (simp add: hspace_skip single_spaced_Cons)
    next
      case True
      define rest where "rest = dropWhile (\<lambda>c. c = 32 \<or> c = 9) cs"
      have len: "length rest < length s"
        using length_dropWhile_le [of "\<lambda>c. c = 32 \<or> c = 9" cs] Cons by (simp add: rest_def)
      have ih: "single_spaced (re_sub match_hspace (\<lambda>_. [32]) rest)"
        using less [OF len] .
      have hd: "re_sub match_hspace (\<lambda>_. [32]) rest \<noteq> [] \<longrightarrow>
          hd (re_sub match_hspace (\<lambda>_. [32]) rest) \<noteq> 32"
      proof (cases rest)
        case Nil
        then show ?thesis by simp
      next
        case (Cons d ds)
        then have "\<not> (d = 32 \<or> d = 9)"
          using hd_dropWhile [of "\<lambda>c. c = 32 \<or> c = 9" cs] unfolding rest_def
          by (metis list.sel(1) list.distinct(1))
        then show ?thesis
          unfolding Cons by (simp add: hspace_skip)
      qed
      have "re_sub match_hspace (\<lambda>_. [32]) (c # cs) = 32 # re_sub match_hspace (\<lambda>_. [32]) rest"
        using True unfolding rest_def by (rule hspace_match)
      then show ?thesis
        unfolding Cons using ih hd by (simp add: single_spaced_Cons)
    qed
  qed
qed

lemma hspace_id: "single_spaced s \<Longrightarrow> re_sub match_hspace (\<lambda>_. [32]) s = s"
proof (induction s)
  case Nil
  then show ?case by simp
next
  case (Cons c cs)
  then have ih: "re_sub match_hspace (\<lambda>_. [32]) cs = cs" and c: "c \<noteq> 9"
    by (simp_all add: single_spaced_Cons)
  show ?case
  proof (cases "c = 32")
    case False
    then show ?thesis using c ih by (simp add: hspace_skip)
  next
    case True
    have "dropWhile (\<lambda>c. c = 32 \<or> c = 9) cs = cs"
    proof (cases cs)
      case Nil
      then show ?thesis by simp
    next
      case (Cons d ds)
      then have "d \<noteq> 32" "d \<noteq> 9"
        using Cons.prems True unfolding Cons by (simp_all add: single_spaced_Cons)
      then show ?thesis unfolding Cons by simp
    qed
    then show ?thesis using True ih by (simp add: hspace_match)
  qed
qed


subsection \<open>Spaces around newlines\<close>

lemma nl_at_nl:
  "re_sub match_nl (\<lambda>_. [10]) (10 # cs) =
     10 # re_sub match_nl (\<lambda>_. [10]) (dropWhile (\<lambda>c. c = 32) cs)"
  using re_sub_match [of match_nl 10 cs "length (takeWhile (\<lambda>c. c = 32) cs)" "\<lambda>_. [10]"]
  by (simp add: match_nl_def dropWhile_eq_drop)

lemma nl_at_sp_nl:
  "re_sub match_nl (\<lambda>_. [10]) (32 # 10 # rest) =
     10 # re_sub match_nl (\<lambda>_. [10]) (dropWhile (\<lambda>c. c = 32) rest)"
  using re_sub_match [of match_nl 32 "10 # rest" "Suc (length (takeWhile (\<lambda>c. c = 32) rest))" "\<lambda>_. [10]"]
  by (simp add: match_nl_def dropWhile_eq_drop)

lemma nl_at_sp:
  assumes "cs = [] \<or> (hd cs \<noteq> 32 \<and> hd cs \<noteq> 10)"
  shows "re_sub match_nl (\<lambda>_. [10]) (32 # cs) = 32 # re_sub match_nl (\<lambda>_. [10]) cs"
proof -
  have "match_nl (32 # cs) = None"
    using assms by (cases cs) (auto simp: match_nl_def)
  then show ?thesis by (rule re_sub_skip)
qed

lemma nl_other:
  assumes "c \<noteq> 10" and "c \<noteq> 32"
  shows "re_sub match_nl (\<lambda>_. [10]) (c # cs) = c # re_sub match_nl (\<lambda>_. [10]) cs"
proof -
  have "match_nl (c # cs) = None"
    using assms by (simp add: match_nl_def)
  then show ?thesis by (rule re_sub_skip)
qed

lemma nl_hd_not_space:
  assumes "s = [] \<or> hd s \<noteq> 32"
  shows "re_sub match_nl (\<lambda>_. [10]) s \<noteq> [] \<longrightarrow> hd (re_sub match_nl (\<lambda>_. [10]) s) \<noteq> 32"
proof (cases s)
  case Nil
  then show ?thesis by simp
next
  case (Cons d ds)
  then have d: "d \<noteq> 32" using assms by simp
  show ?thesis
  proof (cases "d = 10")
    case True
    then show ?thesis unfolding Cons by (simp add: nl_at_nl)
  next
    case False
    then show ?thesis unfolding Cons using d by (simp add: nl_other)
  qed
qed

lemma dropWhile_hd: "dropWhile P xs = [] \<or> \<not> P (hd (dropWhile P xs))"
  using hd_dropWhile [of P xs] by blast

lemma nl_tidy: "single_spaced s \<Longrightarrow> tidy (re_sub match_nl (\<lambda>_. [10]) s)"
proof (induction "length s" arbitrary: s rule: less_induct)
  case less
  show ?case
  proof (cases s)
    case Nil
    then show ?thesis by simp
  next
    case (Cons c cs)
    have c9: "c \<noteq> 9" and cs: "single_spaced cs"
      using less.prems unfolding Cons by (simp_all add: single_spaced_Cons)
    have ihcs: "tidy (re_sub match_nl (\<lambda>_. [10]) cs)"
      using less.hyps [of cs] cs Cons by simp
    have after: "tidy (10 # re_sub match_nl (\<lambda>_. [10]) (dropWhile (\<lambda>c. c = 32) t))"
      if "length t < length s" and "single_spaced t" for t
    proof -
      define rest where "rest = dropWhile (\<lambda>c. c = 32) t"
      have "length rest \<le> length t"
        unfolding rest_def by (rule length_dropWhile_le)
      moreover have "single_spaced rest"
        unfolding rest_def dropWhile_eq_drop using that(2) by (rule single_spaced_drop)
      ultimately have "tidy (re_sub match_nl (\<lambda>_. [10]) rest)"
        using less.hyps [of rest] that(1) by simp
      moreover have "rest = [] \<or> hd rest \<noteq> 32"
        unfolding rest_def using dropWhile_hd [of "\<lambda>c. c = 32" t] by simp
      then have "re_sub match_nl (\<lambda>_. [10]) rest \<noteq> [] \<longrightarrow>
          hd (re_sub match_nl (\<lambda>_. [10]) rest) \<noteq> 32"
        by (rule nl_hd_not_space)
      ultimately show ?thesis
        unfolding rest_def [symmetric] by (simp add: tidy_Cons)
    qed
    consider "c = 10" | "c = 32" "cs \<noteq> []" "hd cs = 10"
      | "c = 32" "cs = [] \<or> (hd cs \<noteq> 32 \<and> hd cs \<noteq> 10)" | "c \<noteq> 10" "c \<noteq> 32"
      using less.prems unfolding Cons by (cases cs) (auto simp: single_spaced_Cons)
    then show ?thesis
    proof cases
      case 1
      then show ?thesis
        unfolding Cons using after [of cs] cs Cons by (simp add: nl_at_nl)
    next
      case 2
      then obtain rest where r: "cs = 10 # rest" by (cases cs) auto
      have "single_spaced rest" using cs r by (simp add: single_spaced_Cons)
      then show ?thesis
        unfolding Cons r using after [of rest] Cons r 2(1) by (simp add: nl_at_sp_nl)
    next
      case 3
      have "re_sub match_nl (\<lambda>_. [10]) cs \<noteq> [] \<longrightarrow>
          hd (re_sub match_nl (\<lambda>_. [10]) cs) \<noteq> 32 \<and> hd (re_sub match_nl (\<lambda>_. [10]) cs) \<noteq> 10"
      proof (cases cs)
        case Nil
        then show ?thesis by simp
      next
        case (Cons d ds)
        then have "d \<noteq> 32" "d \<noteq> 10" using 3(2) by simp_all
        then show ?thesis unfolding Cons by (simp add: nl_other)
      qed
      then show ?thesis
        unfolding Cons using 3 ihcs by (simp add: nl_at_sp tidy_Cons)
    next
      case 4
      then show ?thesis
        unfolding Cons using c9 ihcs by (simp add: nl_other tidy_Cons)
    qed
  qed
qed

lemma nl_id: "tidy s \<Longrightarrow> re_sub match_nl (\<lambda>_. [10]) s = s"
proof (induction s)
  case Nil
  then show ?case by simp
next
  case (Cons c cs)
  then have ih: "re_sub match_nl (\<lambda>_. [10]) cs = cs"
    by (simp add: tidy_Cons)
  consider "c = 10" | "c = 32" | "c \<noteq> 10" "c \<noteq> 32" by blast
  then show ?case
  proof cases
    case 1
    have "dropWhile (\<lambda>c. c = 32) cs = cs"
      using Cons.prems 1 by (cases cs) (simp_all add: tidy_Cons)
    then show ?thesis using 1 ih by (simp add: nl_at_nl)
  next
    case 2
    have "cs = [] \<or> (hd cs \<noteq> 32 \<and> hd cs \<noteq> 10)"
      using Cons.prems 2 by (cases cs) (simp_all add: tidy_Cons)
    then show ?thesis using 2 ih by (simp add: nl_at_sp)
  next
    case 3
    then show ?thesis using ih by (simp add: nl_other)
  qed
qed


subsection \<open>Hyphens at line breaks\<close>

lemma match_hyphen_Some:
  assumes "match_hyphen s = Some k"
  shows "\<exists>a b rest. s = a # 45 # 10 # b # rest \<and> lower_az a \<and> lower_az b \<and> k = 4"
  using assms unfolding match_hyphen_def
  by (auto split: list.splits if_splits)

lemma hyphen_match:
  assumes "lower_az a" and "lower_az b"
  shows "re_sub match_hyphen repl_hyphen (a # 45 # 10 # b # rest) =
     a # b # re_sub match_hyphen repl_hyphen rest"
  using re_sub_match [of match_hyphen a "45 # 10 # b # rest" 3 repl_hyphen] assms
  by (simp add: match_hyphen_def repl_hyphen_def)

lemma hyphen_hd:
  "(re_sub match_hyphen repl_hyphen s = [] \<longleftrightarrow> s = []) \<and>
   (s \<noteq> [] \<longrightarrow> hd (re_sub match_hyphen repl_hyphen s) = hd s)"
proof (cases s)
  case Nil
  then show ?thesis by simp
next
  case (Cons c cs)
  show ?thesis
  proof (cases "match_hyphen s")
    case None
    then show ?thesis unfolding Cons by (simp add: re_sub_skip)
  next
    case (Some k)
    from match_hyphen_Some [OF this] obtain a b rest where
      "s = a # 45 # 10 # b # rest" "lower_az a" "lower_az b" by blast
    then show ?thesis by (simp add: hyphen_match)
  qed
qed

lemma hyphen_tidy: "tidy s \<Longrightarrow> tidy (re_sub match_hyphen repl_hyphen s)"
proof (induction "length s" arbitrary: s rule: less_induct)
  case less
  show ?case
  proof (cases "match_hyphen s")
    case None
    show ?thesis
    proof (cases s)
      case Nil
      then show ?thesis by simp
    next
      case (Cons c cs)
      have "tidy cs" using less.prems Cons by (simp add: tidy_Cons)
      then have "tidy (re_sub match_hyphen repl_hyphen cs)"
        using less.hyps [of cs] Cons by simp
      then show ?thesis
        using None less.prems hyphen_hd [of cs] unfolding Cons
        by (simp add: re_sub_skip tidy_Cons)
    qed
  next
    case (Some k)
    from match_hyphen_Some [OF this] obtain a b rest where
      s: "s = a # 45 # 10 # b # rest" and ab: "lower_az a" "lower_az b" by blast
    have "tidy rest"
      using tidy_drop [OF less.prems, of 4] s by simp
    then have "tidy (re_sub match_hyphen repl_hyphen rest)"
      using less.hyps [of rest] s by simp
    then show ?thesis
      unfolding s using ab by (simp add: hyphen_match tidy_Cons lower_az_def)
  qed
qed

subsection \<open>The whole normalizer\<close>

lemma not_special_ws: "\<not> special 32" "\<not> special 10"
  by (simp_all add: special_def ligatures_def quotes_def zero_width_def)

lemma remove_artifacts_chars: "set (remove_artifacts U s) \<subseteq> set s"
proof -
  have "set (re_sub m (\<lambda>_. []) t) \<subseteq> set t" for m t
    using re_sub_chars [of m "\<lambda>_. []" "{}" t] by simp
  then show ?thesis
    unfolding remove_artifacts_def by blast
qed

lemma whitespace_normalize_chars: "set (whitespace_normalize s) \<subseteq> set s \<union> {32, 10}"
proof -
  have "set (re_sub match_hspace (\<lambda>_. [32]) s) \<subseteq> set s \<union> {32}"
    by (rule re_sub_chars) simp
  moreover have "set (re_sub match_nl (\<lambda>_. [10]) t) \<subseteq> set t \<union> {10}" for t
    by (rule re_sub_chars) simp
  ultimately show ?thesis
    unfolding whitespace_normalize_def by blast
qed

lemma hyphen_fix_chars: "set (hyphen_fix s) \<subseteq> set s"
proof -
  have "set (re_sub match_hyphen repl_hyphen s) \<subseteq> set s \<union> {}"
  proof (rule re_sub_chars)
    fix t n
    assume "match_hyphen t = Some (Suc n)"
    from match_hyphen_Some [OF this] obtain a b rest where
      "t = a # 45 # 10 # b # rest" "Suc n = 4" by blast
    then show "set (repl_hyphen (take (Suc n) t)) \<subseteq> set t \<union> {}"
      by (simp add: repl_hyphen_def)
  qed
  then show ?thesis by (simp add: hyphen_fix_def)
qed

lemma normalizer_output:
  "(\<forall>c \<in> set (TextNormalizer U text). \<not> special c) \<and> tidy (TextNormalizer U text)"
proof -
  have "set (TextNormalizer U text) \<subseteq> set (char_normalize text) \<union> {32, 10}"
    unfolding TextNormalizer_def
    using hyphen_fix_chars whitespace_normalize_chars remove_artifacts_chars
    by blast
  then have a: "\<forall>c \<in> set (TextNormalizer U text). \<not> special c"
    using char_normalize_clean not_special_ws by blast
  have "tidy (TextNormalizer U text)"
    unfolding TextNormalizer_def hyphen_fix_def whitespace_normalize_def
    by (intro hyphen_tidy nl_tidy hspace_single_spaced)
  with a show ?thesis by simp
qed

lemmas norm_eval = TextNormalizer_def hyphen_fix_def whitespace_normalize_def
  remove_artifacts_def char_normalize_def remove_zero_width_def zero_width_def replace_all_def
  quotes_def ligatures_def str_replace1_def re_sub.simps match_url_def match_www_def
  match_page_def match_hspace_def match_nl_def match_hyphen_def repl_hyphen_def lower_az_def
  nonspace_run_def asc_def isspace_def ascii_ucd_def

text \<open>
  Claim C3, as the code has it. Applying the normalizer a second time to its own output
  yields the output unchanged whenever that output holds no URL, no \<^verbatim>\<open>www.\<close> address, no
  \<^verbatim>\<open>Page N\<close> marker and no hyphen between lowercase letters at a line break, which the
  removals of the first application can bring about.
\<close>

theorem normalizer_idempotent_settled:
  assumes "T = TextNormalizer U text"
    and "no_match match_url T" and "no_match match_www T" and "no_match (match_page U) T"
    and "no_match match_hyphen T"
  shows "TextNormalizer U T = T"
proof -
  have o: "(\<forall>c \<in> set T. \<not> special c) \<and> tidy T"
    unfolding assms(1) by (rule normalizer_output)
  then have c: "char_normalize T = T"
    by (intro char_normalize_id) simp
  have r: "remove_artifacts U T = T"
    unfolding remove_artifacts_def using assms(2-4) by (simp add: re_sub_no_match)
  have w: "whitespace_normalize T = T"
    unfolding whitespace_normalize_def using o
    by (simp add: hspace_id nl_id tidy_single_spaced)
  have h: "hyphen_fix T = T"
    unfolding hyphen_fix_def using assms(5) by (rule re_sub_no_match)
  show ?thesis
    unfolding TextNormalizer_def by (simp add: c r w h)
qed

theorem normalizer_idempotent_settled_witness:
  "asc ''The first page'' @ [10] @ asc ''association z'' =
     TextNormalizer ascii_ucd
       (asc ''The '' @ [0xFB01] @ asc ''rst  page'' @ [9, 10] @ asc '' associ-'' @ [10] @
        asc ''ation http://x.y z'') \<and>
   no_match match_url (asc ''The first page'' @ [10] @ asc ''association z'') \<and>
   no_match match_www (asc ''The first page'' @ [10] @ asc ''association z'') \<and>
   no_match (match_page ascii_ucd) (asc ''The first page'' @ [10] @ asc ''association z'') \<and>
   no_match match_hyphen (asc ''The first page'' @ [10] @ asc ''association z'') \<and>
   TextNormalizer ascii_ucd (asc ''The first page'' @ [10] @ asc ''association z'') =
     asc ''The first page'' @ [10] @ asc ''association z''"
proof -
  have t: "asc ''The first page'' @ [10] @ asc ''association z'' =
     TextNormalizer ascii_ucd
       (asc ''The '' @ [0xFB01] @ asc ''rst  page'' @ [9, 10] @ asc '' associ-'' @ [10] @
        asc ''ation http://x.y z'')"
    by (simp add: norm_eval)
  have n1: "no_match match_url (asc ''The first page'' @ [10] @ asc ''association z'')"
    by (simp add: norm_eval)
  have n2: "no_match match_www (asc ''The first page'' @ [10] @ asc ''association z'')"
    by (simp add: norm_eval)
  have n3: "no_match (match_page ascii_ucd) (asc ''The first page'' @ [10] @ asc ''association z'')"
    by (simp add: norm_eval)
  have n4: "no_match match_hyphen (asc ''The first page'' @ [10] @ asc ''association z'')"
    by (simp add: norm_eval)
  from normalizer_idempotent_settled [OF t n1 n2 n3 n4] t n1 n2 n3 n4 show ?thesis
    by blast
qed

text \<open>
  Claim C3 as stated fails: the hyphen fix joins \<^verbatim>\<open>a-\<close>, \<^verbatim>\<open>b-\<close>, \<^verbatim>\<open>c\<close> on three lines
  into \<^verbatim>\<open>ab-\<close>, \<^verbatim>\<open>c\<close> on two, since the match of the first break consumes the \<^verbatim>\<open>b\<close>
  that the second break needs; a second application joins the rest.
\<close>

theorem normalizer_idempotent_counterexample:
  "TextNormalizer ascii_ucd (asc ''a-'' @ [10] @ asc ''b-'' @ [10] @ asc ''c'') =
     asc ''ab-'' @ [10] @ asc ''c'' \<and>
   TextNormalizer ascii_ucd (asc ''ab-'' @ [10] @ asc ''c'') = asc ''abc'' \<and>
   TextNormalizer ascii_ucd
     (TextNormalizer ascii_ucd (asc ''a-'' @ [10] @ asc ''b-'' @ [10] @ asc ''c'')) \<noteq>
   TextNormalizer ascii_ucd (asc ''a-'' @ [10] @ asc ''b-'' @ [10] @ asc ''c'')"
  by (simp add: norm_eval)

section \<open>DictionaryRepairer: the empty Lexicon\<close>

text \<open>
  Claim C6. With an empty Lexicon the join pass and the split pass both return the text
  they are given, and the counters of broken pairs, joins and splits are all zero.
\<close>

theorem empty_lexicon_noop:
  "join_pass U {} text = (text, 0, 0) \<and> split_pass U {} text = (text, 0) \<and>
   DictionaryRepairer U {} text = (text, 0, 0, 0)"
  by (simp add: DictionaryRepairer_def join_pass_def split_pass_def)

theorem empty_lexicon_noop_witness:
  "join_pass ascii_ucd {} (asc ''t he ina'') = (asc ''t he ina'', 0, 0) \<and>
   split_pass ascii_ucd {} (asc ''t he ina'') = (asc ''t he ina'', 0) \<and>
   DictionaryRepairer ascii_ucd {} (asc ''t he ina'') = (asc ''t he ina'', 0, 0, 0)"
  using empty_lexicon_noop [of ascii_ucd "asc ''t he ina''"] by simp

section \<open>DictionaryRepairer: the join pass\<close>

lemma join_loop_scan:
  "join_loop U W tokens i fixed bp j =
     (case join_scan U W (drop i tokens) of (f, b, n) \<Rightarrow> (fixed @ f, bp + b, j + n))"
proof (induction U W tokens i fixed bp j rule: join_loop.induct)
  case (1 U W tokens i fixed bp j)
  show ?case
  proof (cases "i < length tokens")
    case False
    then show ?thesis by (simp add: join_loop.simps [of U W tokens i])
  next
    case True
    note i = True
    show ?thesis
    proof (cases "i + 1 < length tokens")
      case False
      with i have d: "drop i tokens = [tokens ! i]"
        by (metis Cons_nth_drop_Suc Suc_eq_plus1 drop_all not_less)
      have "join_loop U W tokens i fixed bp j = join_loop U W tokens (i + 1) (fixed @ [tokens ! i]) bp j"
        using i False by (simp add: join_loop.simps [of U W tokens i])
      also have "\<dots> = (fixed @ [tokens ! i], bp, j)"
        using False by (simp add: join_loop.simps [of U W tokens "Suc i"])
      finally show ?thesis by (simp add: d)
    next
      case True
      define a where "a = tokens ! i"
      define b where "b = tokens ! (i + 1)"
      define rest where "rest = drop (Suc (Suc i)) tokens"
      have d2: "drop (i + 2) tokens = rest"
        by (simp add: rest_def)
      have d1: "drop (Suc i) tokens = b # rest"
        using True unfolding b_def rest_def by (simp add: Cons_nth_drop_Suc)
      have d: "drop i tokens = a # b # rest"
        using i d1 unfolding a_def by (metis Cons_nth_drop_Suc)
      show ?thesis
      proof (cases "length a \<le> 2 \<and> isalpha U a \<and> isalpha U b")
        case False
        then have "join_loop U W tokens i fixed bp j =
            join_loop U W tokens (i + 1) (fixed @ [a]) bp j"
          using i by (subst join_loop.simps) (auto simp: a_def b_def)
        also have "\<dots> = (case join_scan U W (drop (i + 1) tokens) of
            (f, b, n) \<Rightarrow> ((fixed @ [a]) @ f, bp + b, j + n))"
          using "1.IH"(3) i False unfolding a_def b_def by blast
        finally show ?thesis
          using False by (auto simp: d d1 split: prod.splits)
      next
        case cand: True
        show ?thesis
        proof (cases "str_lower U (a @ b) \<in> W")
          case True
          then have "join_loop U W tokens i fixed bp j =
              join_loop U W tokens (i + 2) (fixed @ [a @ b]) (bp + 1) (j + 1)"
            using i cand \<open>i + 1 < length tokens\<close>
            by (subst join_loop.simps) (simp add: a_def b_def)
          also have "\<dots> = (case join_scan U W (drop (i + 2) tokens) of
              (f, b', n) \<Rightarrow> ((fixed @ [a @ b]) @ f, (bp + 1) + b', (j + 1) + n))"
            using "1.IH"(1) i cand True \<open>i + 1 < length tokens\<close> unfolding a_def b_def by blast
          finally show ?thesis
            using cand True by (simp add: d d2 rest_def [symmetric] split: prod.splits)
        next
          case False
          then have "join_loop U W tokens i fixed bp j =
              join_loop U W tokens (i + 1) (fixed @ [a]) (bp + 1) j"
            using i cand \<open>i + 1 < length tokens\<close>
            by (subst join_loop.simps) (simp add: a_def b_def)
          also have "\<dots> = (case join_scan U W (drop (i + 1) tokens) of
              (f, b', n) \<Rightarrow> ((fixed @ [a]) @ f, (bp + 1) + b', j + n))"
            using "1.IH"(2) i cand False \<open>i + 1 < length tokens\<close> unfolding a_def b_def by blast
          finally show ?thesis
            using cand False by (simp add: d d1 split: prod.splits)
        qed
      qed
    qed
  qed
qed

lemma join_scan_concat: "concat (fst (join_scan U W ts)) = concat ts"
  by (induction U W ts rule: join_scan.induct) (auto split: prod.splits)

lemma join_scan_count:
  "length (fst (join_scan U W ts)) + snd (snd (join_scan U W ts)) = length ts \<and>
   snd (snd (join_scan U W ts)) \<le> fst (snd (join_scan U W ts))"
  by (induction U W ts rule: join_scan.induct) (auto split: prod.splits)

lemma join_scan_zero: "snd (snd (join_scan U W ts)) = 0 \<Longrightarrow> fst (join_scan U W ts) = ts"
  by (induction U W ts rule: join_scan.induct) (auto split: prod.splits if_splits)

lemma join_scan_chars: "\<Union> (set ` set (fst (join_scan U W ts))) = \<Union> (set ` set ts)"
  using join_scan_concat [of U W ts] by (metis set_concat)

lemmas repair_eval = join_pass_def split_pass_def py_split.simps isspace_def asc_def
  join_loop.simps split_loop.simps isalpha_def ascii_ucd_def

text \<open>
  Claim C4, as the code has it. The scan merges the token \<open>a\<close> at which it stands with
  the next token \<open>b\<close> if and only if \<open>a\<close> has at most two characters, both are
  alphabetic, and the lowercase concatenation is in the Lexicon; it then goes on after
  \<open>b\<close>, and otherwise keeps \<open>a\<close> and goes on at \<open>b\<close>. The merged output is the tokens with
  some adjacent pairs concatenated: as many as there are joins.
\<close>

theorem join_pass_merge:
  "join_loop U W (a # b # rest) 0 [] 0 0 =
     (if length a \<le> 2 \<and> isalpha U a \<and> isalpha U b \<and> str_lower U (a @ b) \<in> W
      then (case join_loop U W rest 0 [] 0 0 of
              (fixed, broken_pairs, joins) \<Rightarrow> ((a @ b) # fixed, broken_pairs + 1, joins + 1))
      else (case join_loop U W (b # rest) 0 [] 0 0 of
              (fixed, broken_pairs, joins) \<Rightarrow>
                (a # fixed,
                 broken_pairs + (if length a \<le> 2 \<and> isalpha U a \<and> isalpha U b then 1 else 0),
                 joins))) \<and>
   concat (fst (join_loop U W tokens 0 [] 0 0)) = concat tokens \<and>
   length (fst (join_loop U W tokens 0 [] 0 0)) + snd (snd (join_loop U W tokens 0 [] 0 0))
     = length tokens"
proof -
  have l: "join_loop U W ts 0 [] 0 0 = join_scan U W ts" for ts
    by (simp add: join_loop_scan split: prod.splits)
  show ?thesis
    unfolding l using join_scan_concat [of U W tokens] join_scan_count [of U W tokens]
    by (auto split: prod.splits)
qed

theorem join_pass_merge_witness:
  "join_loop ascii_ucd {asc ''the''} [asc ''t'', asc ''he'', asc ''re''] 0 [] 0 0 =
     ([asc ''the'', asc ''re''], 1, 1) \<and>
   join_loop ascii_ucd {asc ''the''} [asc ''he'', asc ''re''] 0 [] 0 0 =
     ([asc ''he'', asc ''re''], 1, 0)"
  using join_pass_merge [of ascii_ucd "{asc ''the''}" "asc ''t''" "asc ''he''" "[asc ''re'']" "[]"]
    join_pass_merge [of ascii_ucd "{asc ''the''}" "asc ''he''" "asc ''re''" "[]" "[]"]
  by (simp add: repair_eval)

text \<open>
  Claim C4 as stated fails: the tokens \<open>the\<close> and \<open>re\<close> are adjacent and their
  lowercase concatenation is in the Lexicon, yet the pass does not merge them, since the
  first has three characters.
\<close>

theorem join_pass_merge_counterexample:
  "{asc ''there''} \<noteq> {} \<and>
   py_split (asc ''the re'') = [asc ''the'', asc ''re''] \<and>
   str_lower ascii_ucd (asc ''the'' @ asc ''re'') \<in> {asc ''there''} \<and>
   join_pass ascii_ucd {asc ''there''} (asc ''the re'') = (asc ''the re'', 0, 0)"
  by (simp add: repair_eval)

section \<open>DictionaryRepairer: the split pass\<close>

lemma try_cuts_find:
  "try_cuts W low cuts =
     map_option (\<lambda>c. take c low @ asc '' '' @ drop c low)
       (find (\<lambda>c. take c low \<in> W \<and> drop c low \<in> W) cuts)"
  by (induction cuts) auto

lemma find_upt_None:
  "find P [m..<n] = None \<longleftrightarrow> \<not> (\<exists>c. m \<le> c \<and> c < n \<and> P c)"
  by (auto simp: find_None_iff)

lemma find_upt_Some:
  assumes "\<exists>c. m \<le> c \<and> c < n \<and> P c"
  shows "find P [m..<n] = Some (LEAST c. m \<le> c \<and> c < n \<and> P c)"
proof -
  define l where "l = (LEAST c. m \<le> c \<and> c < n \<and> P c)"
  have l: "m \<le> l \<and> l < n \<and> P l"
    unfolding l_def using assms by (rule LeastI_ex)
  have least: "\<not> (m \<le> c \<and> c < n \<and> P c)" if "c < l" for c
    using that not_less_Least unfolding l_def by blast
  have "find P [m..<n] = Some l"
    unfolding find_Some_iff
  proof (intro exI [of _ "l - m"] conjI allI impI)
    show "l - m < length [m..<n]" using l by auto
    show "P ([m..<n] ! (l - m))" using l by auto
    show "l = [m..<n] ! (l - m)" using l by auto
    fix j assume "j < l - m"
    then have "[m..<n] ! j = m + j" "m + j < l" using l by auto
    with least [of "m + j"] l show "\<not> P ([m..<n] ! j)" by auto
  qed
  then show ?thesis by (simp add: l_def)
qed

lemma split_loop_one:
  "split_loop U W (tok # toks) fixed n =
     split_loop U W toks (fixed @ fst (split_loop U W [tok] [] 0)) (n + snd (split_loop U W [tok] [] 0))"
  by (simp add: split_loop.simps split: option.splits)

lemma split_loop_single:
  "split_loop U W [tok] [] 0 =
     (if str_lower U tok \<in> W \<or> \<not> isalpha U tok \<or> length tok < 4 then ([tok], 0)
      else (case find (\<lambda>c. take c (str_lower U tok) \<in> W \<and> drop c (str_lower U tok) \<in> W)
                   [1..<length tok] of
              Some c \<Rightarrow> ([take c (str_lower U tok) @ asc '' '' @ drop c (str_lower U tok)], 1)
            | None \<Rightarrow> ([tok], 0)))"
  by (simp add: split_loop.simps try_cuts_find split: option.splits)

lemma split_single_yes:
  assumes "splittable U W tok"
  shows "split_loop U W [tok] [] 0 =
     ([take (lowest_cut U W tok) (str_lower U tok) @ asc '' '' @
       drop (lowest_cut U W tok) (str_lower U tok)], 1)"
proof -
  have e: "\<not> (str_lower U tok \<in> W \<or> \<not> isalpha U tok \<or> length tok < 4)"
    using assms by (auto simp: splittable_def)
  have "\<exists>c. 1 \<le> c \<and> c < length tok \<and>
      (take c (str_lower U tok) \<in> W \<and> drop c (str_lower U tok) \<in> W)"
    using assms by (simp add: splittable_def)
  from find_upt_Some [OF this]
  have "find (\<lambda>c. take c (str_lower U tok) \<in> W \<and> drop c (str_lower U tok) \<in> W)
          [1..<length tok] = Some (lowest_cut U W tok)"
    by (simp add: lowest_cut_def)
  then show ?thesis
    unfolding split_loop_single using e by simp
qed

lemma split_single_no:
  assumes "\<not> splittable U W tok"
  shows "split_loop U W [tok] [] 0 = ([tok], 0)"
proof (cases "str_lower U tok \<in> W \<or> \<not> isalpha U tok \<or> length tok < 4")
  case True
  then show ?thesis unfolding split_loop_single by simp
next
  case False
  then have "\<not> (\<exists>c. 1 \<le> c \<and> c < length tok \<and>
      (take c (str_lower U tok) \<in> W \<and> drop c (str_lower U tok) \<in> W))"
    using assms by (auto simp: splittable_def)
  then have "find (\<lambda>c. take c (str_lower U tok) \<in> W \<and> drop c (str_lower U tok) \<in> W)
          [1..<length tok] = None"
    unfolding find_upt_None by simp
  then show ?thesis
    unfolding split_loop_single using False by simp
qed

lemma split_loop_map:
  "split_loop U W toks fixed n =
     (fixed @ map (\<lambda>t. hd (fst (split_loop U W [t] [] 0))) toks,
      n + sum_list (map (\<lambda>t. snd (split_loop U W [t] [] 0)) toks))"
proof (induction toks arbitrary: fixed n)
  case Nil
  then show ?case by (simp add: split_loop.simps)
next
  case (Cons tok toks)
  have h: "fst (split_loop U W [tok] [] 0) = [hd (fst (split_loop U W [tok] [] 0))]"
    by (cases "splittable U W tok")
      (simp_all add: split_single_yes split_single_no)
  have "split_loop U W (tok # toks) fixed n =
      split_loop U W toks (fixed @ [hd (fst (split_loop U W [tok] [] 0))])
        (n + snd (split_loop U W [tok] [] 0))"
    using split_loop_one [of U W tok toks fixed n] h by simp
  then show ?case
    by (simp add: Cons.IH)
qed

lemma split_loop_zero:
  assumes "snd (split_loop U W toks [] 0) = 0"
  shows "fst (split_loop U W toks [] 0) = toks"
proof -
  have "\<forall>t \<in> set toks. snd (split_loop U W [t] [] 0) = 0"
    using assms by (simp add: split_loop_map [of U W toks])
  then have "\<forall>t \<in> set toks. \<not> splittable U W t"
    using split_single_yes by fastforce
  then have "\<forall>t \<in> set toks. hd (fst (split_loop U W [t] [] 0)) = t"
    by (simp add: split_single_no)
  then show ?thesis
    by (simp add: split_loop_map [of U W toks] map_idI)
qed

text \<open>
  Claim C5. In the split pass, the token at every position of the stream is replaced
  by \<open>left + " " + right\<close>, the two lowercase halves at the lowest valid cut, exactly when
  it is splittable: its lowercase form is not in the Lexicon, it is alphabetic, it has
  at least four characters, and some cut leaves both lowercase halves in the Lexicon.
  Every other token is passed through unchanged, and the counter is the number of
  tokens that were split.
\<close>

theorem split_pass_lowest_cut:
  assumes "W \<noteq> {}" and "toks = py_split text" and "k < length toks"
  shows "split_pass U W text =
       (join_sp (fst (split_loop U W toks [] 0)), snd (split_loop U W toks [] 0)) \<and>
     length (fst (split_loop U W toks [] 0)) = length toks \<and>
     fst (split_loop U W toks [] 0) ! k =
       (if splittable U W (toks ! k)
        then take (lowest_cut U W (toks ! k)) (str_lower U (toks ! k)) @ asc '' '' @
             drop (lowest_cut U W (toks ! k)) (str_lower U (toks ! k))
        else toks ! k) \<and>
     snd (split_loop U W toks [] 0) = length (filter (splittable U W) toks) \<and>
     (splittable U W (toks ! k) \<longrightarrow>
        1 \<le> lowest_cut U W (toks ! k) \<and> lowest_cut U W (toks ! k) < length (toks ! k) \<and>
        take (lowest_cut U W (toks ! k)) (str_lower U (toks ! k)) \<in> W \<and>
        drop (lowest_cut U W (toks ! k)) (str_lower U (toks ! k)) \<in> W \<and>
        (\<forall>c. 1 \<le> c \<and> c < lowest_cut U W (toks ! k) \<longrightarrow>
           \<not> (take c (str_lower U (toks ! k)) \<in> W \<and> drop c (str_lower U (toks ! k)) \<in> W)))"
proof -
  have one: "hd (fst (split_loop U W [t] [] 0)) =
      (if splittable U W t
       then take (lowest_cut U W t) (str_lower U t) @ asc '' '' @
            drop (lowest_cut U W t) (str_lower U t)
       else t)" for t
    by (simp add: split_single_yes split_single_no)
  have cnt: "snd (split_loop U W [t] [] 0) = (if splittable U W t then 1 else 0)" for t
    by (simp add: split_single_yes split_single_no)
  have c: "sum_list (map (\<lambda>t. if splittable U W t then 1 else 0) ts)
      = length (filter (splittable U W) ts)" for ts
    by (induction ts) auto
  have least: "1 \<le> lowest_cut U W t \<and> lowest_cut U W t < length t \<and>
        take (lowest_cut U W t) (str_lower U t) \<in> W \<and>
        drop (lowest_cut U W t) (str_lower U t) \<in> W \<and>
        (\<forall>c. 1 \<le> c \<and> c < lowest_cut U W t \<longrightarrow>
           \<not> (take c (str_lower U t) \<in> W \<and> drop c (str_lower U t) \<in> W))"
    if "splittable U W t" for t
  proof -
    let ?P = "\<lambda>c. 1 \<le> c \<and> c < length t \<and> take c (str_lower U t) \<in> W \<and> drop c (str_lower U t) \<in> W"
    have ex: "\<exists>c. ?P c" using that by (simp add: splittable_def)
    have "?P (lowest_cut U W t)"
      unfolding lowest_cut_def using ex by (rule LeastI_ex)
    moreover have "\<not> ?P c" if "c < lowest_cut U W t" for c
      using that unfolding lowest_cut_def by (rule not_less_Least)
    ultimately show ?thesis by auto
  qed
  have sp: "split_pass U W text =
       (join_sp (fst (split_loop U W toks [] 0)), snd (split_loop U W toks [] 0))"
    using assms(1,2) by (simp add: split_pass_def split: prod.splits)
  show ?thesis
    unfolding sp using assms(3) least [of "toks ! k"]
    by (simp add: split_loop_map [of U W toks] one cnt c)
qed


theorem split_pass_lowest_cut_witness:
  "{asc ''a'', asc ''as'', asc ''he'', asc ''she''} \<noteq> {} \<and>
   py_split (asc ''Ashe ashen'') = [asc ''Ashe'', asc ''ashen''] \<and>
   (0::nat) < length [asc ''Ashe'', asc ''ashen''] \<and>
   splittable ascii_ucd {asc ''a'', asc ''as'', asc ''he'', asc ''she''} (asc ''Ashe'') \<and>
   split_pass ascii_ucd {asc ''a'', asc ''as'', asc ''he'', asc ''she''} (asc ''Ashe ashen'')
     = (asc ''a she ashen'', 1) \<and>
   fst (split_loop ascii_ucd {asc ''a'', asc ''as'', asc ''he'', asc ''she''}
          [asc ''Ashe'', asc ''ashen''] [] 0) ! 0 =
     take (lowest_cut ascii_ucd {asc ''a'', asc ''as'', asc ''he'', asc ''she''} (asc ''Ashe''))
       (asc ''ashe'') @ asc '' '' @
     drop (lowest_cut ascii_ucd {asc ''a'', asc ''as'', asc ''he'', asc ''she''} (asc ''Ashe''))
       (asc ''ashe'')"
proof -
  have ne: "{asc ''a'', asc ''as'', asc ''he'', asc ''she''} \<noteq> {}"
    by simp
  have s: "splittable ascii_ucd {asc ''a'', asc ''as'', asc ''he'', asc ''she''} (asc ''Ashe'')"
    unfolding splittable_def by (intro conjI exI [of _ 1]) (simp_all add: repair_eval)
  have t: "py_split (asc ''Ashe ashen'') = [asc ''Ashe'', asc ''ashen'']"
    by (simp add: repair_eval)
  have k: "(0::nat) < length [asc ''Ashe'', asc ''ashen'']"
    by simp
  have e: "split_pass ascii_ucd {asc ''a'', asc ''as'', asc ''he'', asc ''she''}
      (asc ''Ashe ashen'') = (asc ''a she ashen'', 1)"
    by (simp add: repair_eval upt_conv_Cons)
  have l: "str_lower ascii_ucd (asc ''Ashe'') = asc ''ashe''"
    by (simp add: repair_eval)
  note r = split_pass_lowest_cut [OF ne t [symmetric] k, of ascii_ucd,
      THEN conjunct2, THEN conjunct2, THEN conjunct1]
  have "fst (split_loop ascii_ucd {asc ''a'', asc ''as'', asc ''he'', asc ''she''}
          [asc ''Ashe'', asc ''ashen''] [] 0) ! 0 =
     take (lowest_cut ascii_ucd {asc ''a'', asc ''as'', asc ''he'', asc ''she''} (asc ''Ashe''))
       (asc ''ashe'') @ asc '' '' @
     drop (lowest_cut ascii_ucd {asc ''a'', asc ''as'', asc ''he'', asc ''she''} (asc ''Ashe''))
       (asc ''ashe'')"
    using r s by (simp add: l)
  with ne t k s e show ?thesis
    by blast
qed

section \<open>DictionaryRepairer: the text that the passes return\<close>

lemma join_scan_clean:
  "\<forall>t \<in> set ts. clean_token t \<Longrightarrow> \<forall>t \<in> set (fst (join_scan U W ts)). clean_token t"
  by (induction U W ts rule: join_scan.induct)
    (auto simp: clean_token_def split: prod.splits if_splits)

lemma join_sp_Cons: "ys \<noteq> [] \<Longrightarrow> join_sp (x # ys) = x @ [32] @ join_sp ys"
  by (cases ys) simp_all

lemma join_sp_append:
  "xs \<noteq> [] \<Longrightarrow> ys \<noteq> [] \<Longrightarrow> join_sp (xs @ ys) = join_sp xs @ [32] @ join_sp ys"
proof (induction xs rule: join_sp.induct)
  case 1
  then show ?case by simp
next
  case (2 x)
  then show ?case by (simp add: join_sp_Cons)
next
  case (3 x y zs)
  then show ?case by simp
qed

lemma join_sp_groups:
  "\<forall>g \<in> set gs. g \<noteq> [] \<Longrightarrow> join_sp (map join_sp gs) = join_sp (concat gs)"
proof (induction gs)
  case Nil
  then show ?case by simp
next
  case (Cons g gs)
  show ?case
  proof (cases gs)
    case Nil
    then show ?thesis by simp
  next
    case (Cons h hs)
    then have ne: "map join_sp gs \<noteq> []" "concat gs \<noteq> []" "g \<noteq> []"
      using Cons.prems by auto
    have "join_sp (map join_sp (g # gs)) = join_sp g @ [32] @ join_sp (map join_sp gs)"
      using ne(1) by (simp add: join_sp_Cons)
    also have "\<dots> = join_sp g @ [32] @ join_sp (concat gs)"
      using Cons.IH Cons.prems by simp
    also have "\<dots> = join_sp (g @ concat gs)"
      using ne(2,3) by (simp add: join_sp_append)
    finally show ?thesis by simp
  qed
qed

lemma lowest_cut_valid:
  assumes "splittable U W t"
  shows "1 \<le> lowest_cut U W t \<and> lowest_cut U W t < length t \<and>
     take (lowest_cut U W t) (str_lower U t) \<in> W \<and>
     drop (lowest_cut U W t) (str_lower U t) \<in> W"
proof -
  have "\<exists>c. 1 \<le> c \<and> c < length t \<and> take c (str_lower U t) \<in> W \<and> drop c (str_lower U t) \<in> W"
    using assms by (simp add: splittable_def)
  then show ?thesis
    unfolding lowest_cut_def by (rule LeastI_ex)
qed

lemma split_single_words:
  "split_loop U W [tok] [] 0 =
     ([join_sp (split_words U W tok)], length (split_words U W tok) - 1)"
  by (cases "splittable U W tok")
    (simp_all add: split_single_yes split_single_no split_words_def asc_def)

lemma split_loop_words:
  "split_loop U W toks [] 0 =
     (map (\<lambda>t. join_sp (split_words U W t)) toks,
      length (concat (map (split_words U W) toks)) - length toks)"
proof -
  have one: "1 \<le> length (split_words U W t)" for t
    by (simp add: split_words_def)
  have "sum_list (map (\<lambda>t. length (split_words U W t) - 1) ts) =
      length (concat (map (split_words U W) ts)) - length ts
      \<and> length ts \<le> length (concat (map (split_words U W) ts))" for ts
  proof (induction ts)
    case Nil
    then show ?case by simp
  next
    case (Cons t ts)
    then show ?case using one [of t] by simp
  qed
  then show ?thesis
    by (simp add: split_loop_map [of U W toks] split_single_words)
qed

lemma split_words_clean:
  assumes "\<forall>w \<in> W. clean_token w" and "clean_token tok"
  shows "\<forall>w \<in> set (split_words U W tok). clean_token w"
  using assms lowest_cut_valid [of U W tok] by (simp add: split_words_def)

text \<open>
  Claim C9, as the code has it. With a non-empty Lexicon, the text that the join pass
  returns is the repaired tokens of the pass joined by single spaces: splitting it at
  whitespace gives back exactly the tokens that the scan has produced, the text is these
  tokens joined by single spaces, and the only whitespace in it is the single space
  between two tokens, so that every newline and every tab of the input is gone. It is
  the whitespace-split tokens of the input rejoined if and only if the pass makes no
  join. The text that the split pass returns is the elements of its list joined by
  single spaces, and it is the tokens of the input rejoined when the pass makes no
  split. If every word of the Lexicon is a non-empty word without whitespace (the
  loader keeps the first whitespace-split token of each line), then the tokens of the
  returned text are the tokens of the input, each split token replaced by its two
  lowercase halves; the text is these tokens joined by single spaces, its only
  whitespace is the single space between two tokens, and it is the tokens of the input
  rejoined if and only if the pass makes no split.
\<close>

theorem repair_passes_rejoin:
  assumes "W \<noteq> {}"
  shows "py_split (fst (join_pass U W text)) = fst (join_loop U W (py_split text) 0 [] 0 0) \<and>
     fst (join_pass U W text) = join_sp (py_split (fst (join_pass U W text))) \<and>
     (\<forall>c \<in> set (fst (join_pass U W text)). isspace c \<longrightarrow> c = 32) \<and>
     (fst (join_pass U W text) = join_sp (py_split text) \<longleftrightarrow>
        snd (snd (join_pass U W text)) = 0) \<and>
     fst (split_pass U W text) = join_sp (fst (split_loop U W (py_split text) [] 0)) \<and>
     (snd (split_pass U W text) = 0 \<longrightarrow> fst (split_pass U W text) = join_sp (py_split text)) \<and>
     ((\<forall>w \<in> W. clean_token w) \<longrightarrow>
        py_split (fst (split_pass U W text)) = concat (map (split_words U W) (py_split text)) \<and>
        fst (split_pass U W text) = join_sp (py_split (fst (split_pass U W text))) \<and>
        (\<forall>c \<in> set (fst (split_pass U W text)). isspace c \<longrightarrow> c = 32) \<and>
        (fst (split_pass U W text) = join_sp (py_split text) \<longleftrightarrow> snd (split_pass U W text) = 0))"
proof -
  define toks where "toks = py_split text"
  define fixed where "fixed = fst (join_scan U W toks)"
  define joins where "joins = snd (snd (join_scan U W toks))"
  have l: "join_loop U W toks 0 [] 0 0 = join_scan U W toks"
    by (simp add: join_loop_scan split: prod.splits)
  have j: "fst (join_pass U W text) = join_sp fixed" "snd (snd (join_pass U W text)) = joins"
    using assms l
    by (simp_all add: join_pass_def toks_def fixed_def joins_def split: prod.splits)
  have clean: "\<forall>t \<in> set toks. clean_token t"
    unfolding toks_def using py_split_clean by blast
  have fclean: "\<forall>t \<in> set fixed. clean_token t"
    unfolding fixed_def using clean by (rule join_scan_clean)
  have j1: "py_split (join_sp fixed) = fixed"
    using fclean by (rule py_split_join)
  have j3: "\<forall>c \<in> set (join_sp fixed). isspace c \<longrightarrow> c = 32"
    using join_sp_clean [OF fclean] by blast
  have j4: "join_sp fixed = join_sp toks \<longleftrightarrow> joins = 0"
  proof
    assume "join_sp fixed = join_sp toks"
    then have "py_split (join_sp fixed) = py_split (join_sp toks)" by simp
    then have "fixed = toks" using j1 py_split_join [OF clean] by simp
    then show "joins = 0"
      using join_scan_count [of U W toks] by (simp add: fixed_def joins_def)
  next
    assume "joins = 0"
    then have "fixed = toks"
      unfolding fixed_def joins_def by (rule join_scan_zero)
    then show "join_sp fixed = join_sp toks" by simp
  qed
  define out where "out = map (\<lambda>t. join_sp (split_words U W t)) toks"
  define groups where "groups = map (split_words U W) toks"
  define splits where "splits = length (concat groups) - length toks"
  have sl: "split_loop U W toks [] 0 = (out, splits)"
    by (simp add: split_loop_words out_def splits_def groups_def)
  have s: "fst (split_pass U W text) = join_sp out" "snd (split_pass U W text) = splits"
    using assms by (simp_all add: split_pass_def toks_def [symmetric] sl)
  have s5: "splits = 0 \<longrightarrow> join_sp out = join_sp toks"
    using split_loop_zero [of U W toks] sl by simp
  have gne: "\<forall>g \<in> set groups. g \<noteq> []"
    by (auto simp: groups_def split_words_def)
  have og: "join_sp out = join_sp (concat groups)"
    using join_sp_groups [OF gne] by (simp add: out_def groups_def comp_def)
  have glen: "length toks \<le> length (concat groups)"
  proof -
    have "length ts \<le> length (concat (map (split_words U W) ts))" for ts
      by (induction ts) (auto simp: split_words_def)
    then show ?thesis by (simp add: groups_def)
  qed
  have lex: "py_split (join_sp out) = concat groups \<and>
      join_sp out = join_sp (py_split (join_sp out)) \<and>
      (\<forall>c \<in> set (join_sp out). isspace c \<longrightarrow> c = 32) \<and>
      (join_sp out = join_sp toks \<longleftrightarrow> splits = 0)"
    if w: "\<forall>w \<in> W. clean_token w"
  proof -
    have gclean: "\<forall>t \<in> set (concat groups). clean_token t"
      using split_words_clean [OF w] clean by (auto simp: groups_def)
    have r: "py_split (join_sp out) = concat groups"
      unfolding og using gclean by (rule py_split_join)
    have c: "\<forall>c \<in> set (join_sp out). isspace c \<longrightarrow> c = 32"
      unfolding og using join_sp_clean [OF gclean] by blast
    have "splits = 0" if "join_sp out = join_sp toks"
    proof -
      have "py_split (join_sp out) = py_split (join_sp toks)" using that by simp
      then have "concat groups = toks" using r py_split_join [OF clean] by simp
      then show ?thesis by (simp add: splits_def)
    qed
    with s5 r c og show ?thesis by auto
  qed
  have j': "py_split (fst (join_pass U W text)) = fst (join_loop U W (py_split text) 0 [] 0 0) \<and>
     fst (join_pass U W text) = join_sp (py_split (fst (join_pass U W text))) \<and>
     (\<forall>c \<in> set (fst (join_pass U W text)). isspace c \<longrightarrow> c = 32) \<and>
     (fst (join_pass U W text) = join_sp (py_split text) \<longleftrightarrow>
        snd (snd (join_pass U W text)) = 0)"
    unfolding j toks_def [symmetric] l
    using j1 j3 j4 by (simp add: fixed_def)
  have s': "fst (split_pass U W text) = join_sp (fst (split_loop U W (py_split text) [] 0)) \<and>
     (snd (split_pass U W text) = 0 \<longrightarrow> fst (split_pass U W text) = join_sp (py_split text))"
    unfolding s toks_def [symmetric] sl
    using s5 by simp
  have lex': "py_split (fst (split_pass U W text)) =
        concat (map (split_words U W) (py_split text)) \<and>
      fst (split_pass U W text) = join_sp (py_split (fst (split_pass U W text))) \<and>
      (\<forall>c \<in> set (fst (split_pass U W text)). isspace c \<longrightarrow> c = 32) \<and>
      (fst (split_pass U W text) = join_sp (py_split text) \<longleftrightarrow>
         snd (split_pass U W text) = 0)"
    if w: "\<forall>w \<in> W. clean_token w"
    unfolding s toks_def [symmetric]
    using lex [OF w] unfolding groups_def .
  from j' s' lex' show ?thesis
    by blast
qed

theorem repair_passes_rejoin_witness:
  "{asc ''the'', asc ''a'', asc ''she''} \<noteq> {} \<and>
   clean_token (asc ''the'') \<and> clean_token (asc ''a'') \<and> clean_token (asc ''she'') \<and>
   py_split (asc ''t he'' @ [10, 9] @ asc ''ina  Ashe '' @ [10]) =
     [asc ''t'', asc ''he'', asc ''ina'', asc ''Ashe''] \<and>
   join_pass ascii_ucd {asc ''the'', asc ''a'', asc ''she''}
     (asc ''t he'' @ [10, 9] @ asc ''ina  Ashe '' @ [10]) = (asc ''the ina Ashe'', 1, 1) \<and>
   split_pass ascii_ucd {asc ''the'', asc ''a'', asc ''she''}
     (asc ''t he'' @ [10, 9] @ asc ''ina  Ashe '' @ [10]) = (asc ''t he ina a she'', 1) \<and>
   py_split (fst (join_pass ascii_ucd {asc ''the'', asc ''a'', asc ''she''}
     (asc ''t he'' @ [10, 9] @ asc ''ina  Ashe '' @ [10]))) =
     fst (join_loop ascii_ucd {asc ''the'', asc ''a'', asc ''she''}
       (py_split (asc ''t he'' @ [10, 9] @ asc ''ina  Ashe '' @ [10])) 0 [] 0 0) \<and>
   py_split (fst (split_pass ascii_ucd {asc ''the'', asc ''a'', asc ''she''}
     (asc ''t he'' @ [10, 9] @ asc ''ina  Ashe '' @ [10]))) =
     concat (map (split_words ascii_ucd {asc ''the'', asc ''a'', asc ''she''})
       (py_split (asc ''t he'' @ [10, 9] @ asc ''ina  Ashe '' @ [10]))) \<and>
   py_split (asc ''t he ina a she'') =
     [asc ''t'', asc ''he'', asc ''ina'', asc ''a'', asc ''she'']"
proof -
  have ne: "{asc ''the'', asc ''a'', asc ''she''} \<noteq> {}"
    by simp
  have c: "clean_token (asc ''the'')" "clean_token (asc ''a'')" "clean_token (asc ''she'')"
    by (simp_all add: clean_token_def isspace_def asc_def)
  then have cl: "\<forall>w \<in> {asc ''the'', asc ''a'', asc ''she''}. clean_token w"
    by blast
  have t: "py_split (asc ''t he'' @ [10, 9] @ asc ''ina  Ashe '' @ [10]) =
     [asc ''t'', asc ''he'', asc ''ina'', asc ''Ashe'']"
    by (simp add: repair_eval)
  have j: "join_pass ascii_ucd {asc ''the'', asc ''a'', asc ''she''}
     (asc ''t he'' @ [10, 9] @ asc ''ina  Ashe '' @ [10]) = (asc ''the ina Ashe'', 1, 1)"
    by (simp add: repair_eval)
  have s: "split_pass ascii_ucd {asc ''the'', asc ''a'', asc ''she''}
     (asc ''t he'' @ [10, 9] @ asc ''ina  Ashe '' @ [10]) = (asc ''t he ina a she'', 1)"
    by (simp add: repair_eval upt_conv_Cons)
  have o: "py_split (asc ''t he ina a she'') =
     [asc ''t'', asc ''he'', asc ''ina'', asc ''a'', asc ''she'']"
    by (simp add: repair_eval)
  note r = repair_passes_rejoin [OF ne, of ascii_ucd
      "asc ''t he'' @ [10, 9] @ asc ''ina  Ashe '' @ [10]"]
  from ne c t j s o r cl show ?thesis
    by blast
qed

text \<open>
  Claim C9 as stated fails as soon as a pass repairs a token. With \<open>the\<close> in the
  Lexicon the join pass turns \<open>t he\<close> into \<open>the\<close>, and with \<open>a\<close> and \<open>she\<close> in the
  Lexicon the split pass turns \<open>Ashe\<close> into \<open>a she\<close>: neither is the whitespace-split
  tokens of the input rejoined with single spaces.
\<close>

theorem repair_passes_rejoin_counterexample:
  "{asc ''the''} \<noteq> {} \<and>
   join_pass ascii_ucd {asc ''the''} (asc ''t he'') = (asc ''the'', 1, 1) \<and>
   join_sp (py_split (asc ''t he'')) = asc ''t he'' \<and>
   fst (join_pass ascii_ucd {asc ''the''} (asc ''t he'')) \<noteq> join_sp (py_split (asc ''t he'')) \<and>
   {asc ''a'', asc ''she''} \<noteq> {} \<and>
   split_pass ascii_ucd {asc ''a'', asc ''she''} (asc ''Ashe'') = (asc ''a she'', 1) \<and>
   join_sp (py_split (asc ''Ashe'')) = asc ''Ashe'' \<and>
   fst (split_pass ascii_ucd {asc ''a'', asc ''she''} (asc ''Ashe'')) \<noteq>
     join_sp (py_split (asc ''Ashe''))"
  by (simp add: repair_eval upt_conv_Cons)

section \<open>ChunkAssembler: dropped buffers and the overlap\<close>




lemma wd_clean: "clean_token (wd i)"
proof -
  have "\<not> isspace (48 + k mod 10)" for k :: nat
  proof -
    have "k mod 10 < 10" by simp
    then show ?thesis unfolding isspace_def by presburger
  qed
  moreover have "\<not> isspace 119" by (simp add: isspace_def)
  ultimately show ?thesis by (simp add: clean_token_def wd_def)
qed

lemma split_words_sentence: "py_split (words_sentence a b) = map wd [a..<b]"
  unfolding words_sentence_def by (rule py_split_join) (simp add: wd_clean)

lemma split_join_wd: "py_split (join_sp (map wd xs)) = map wd xs"
  by (rule py_split_join) (simp add: wd_clean)


lemmas chunk_eval = ChunkAssembler_def CHUNK_WORDS_def OVERLAP_WORDS_def py_last_n_def
  split_words_sentence drop_map take_map

lemma py_last_n_length: "length (py_last_n n xs) = min n (length xs)"
  by (auto simp: py_last_n_def)

lemma py_last_n_set: "set (py_last_n n xs) \<subseteq> set xs"
  unfolding py_last_n_def by (rule set_drop_subset)




lemma assembler_flush:
  "ChunkAssembler good =
     (if length (snd (chunk_loop good [] [])) > 80
      then fst (chunk_loop good [] []) @ [join_sp (snd (chunk_loop good [] []))]
      else fst (chunk_loop good [] []))"
  by (simp add: ChunkAssembler_def split: prod.splits)




lemma overlap_snoc_unless:
  assumes ov: "\<forall>k. Suc k < length chunks \<and> Suc k \<notin> D \<longrightarrow>
      take OVERLAP_WORDS (py_split (chunks ! Suc k)) = py_last_n OVERLAP_WORDS (py_split (chunks ! k))"
    and hd: "chunks \<noteq> [] \<and> length chunks \<notin> D \<longrightarrow>
      take OVERLAP_WORDS (py_split c) = py_last_n OVERLAP_WORDS (py_split (last chunks))"
  shows "\<forall>k. Suc k < length (chunks @ [c]) \<and> Suc k \<notin> D \<longrightarrow>
      take OVERLAP_WORDS (py_split ((chunks @ [c]) ! Suc k)) =
      py_last_n OVERLAP_WORDS (py_split ((chunks @ [c]) ! k))"
proof (intro allI impI)
  fix k
  assume k: "Suc k < length (chunks @ [c]) \<and> Suc k \<notin> D"
  show "take OVERLAP_WORDS (py_split ((chunks @ [c]) ! Suc k)) =
      py_last_n OVERLAP_WORDS (py_split ((chunks @ [c]) ! k))"
  proof (cases "Suc k < length chunks")
    case True
    then show ?thesis using ov k by (simp add: nth_append)
  next
    case False
    then have e: "Suc k = length chunks" using k by simp
    then have ne: "chunks \<noteq> []" by auto
    have "(chunks @ [c]) ! Suc k = c" using e by simp
    moreover have "k = length chunks - 1" using e by simp
    then have "(chunks @ [c]) ! k = last chunks"
      using e ne by (simp add: nth_append last_conv_nth)
    moreover have "length chunks \<notin> D" using k e by simp
    ultimately show ?thesis using hd ne by simp
  qed
qed

lemma chunk_loop_overlap_unless:
  assumes "\<forall>w \<in> set cur. clean_token w"
    and "\<forall>k. Suc k < length chunks \<and> Suc k \<notin> D \<longrightarrow>
      take OVERLAP_WORDS (py_split (chunks ! Suc k)) = py_last_n OVERLAP_WORDS (py_split (chunks ! k))"
    and "chunks \<noteq> [] \<and> length chunks \<notin> D \<longrightarrow> OVERLAP_WORDS \<le> length cur \<and>
      take OVERLAP_WORDS cur = py_last_n OVERLAP_WORDS (py_split (last chunks))"
  shows "(\<forall>w \<in> set (snd (chunk_loop good chunks cur)). clean_token w) \<and>
     (\<forall>k. Suc k < length (fst (chunk_loop good chunks cur)) \<and>
          Suc k \<notin> D \<union> set (drops good chunks cur) \<longrightarrow>
        take OVERLAP_WORDS (py_split (fst (chunk_loop good chunks cur) ! Suc k)) =
        py_last_n OVERLAP_WORDS (py_split (fst (chunk_loop good chunks cur) ! k))) \<and>
     (fst (chunk_loop good chunks cur) \<noteq> [] \<and>
      length (fst (chunk_loop good chunks cur)) \<notin> D \<union> set (drops good chunks cur) \<longrightarrow>
        OVERLAP_WORDS \<le> length (snd (chunk_loop good chunks cur)) \<and>
        take OVERLAP_WORDS (snd (chunk_loop good chunks cur)) =
        py_last_n OVERLAP_WORDS (py_split (last (fst (chunk_loop good chunks cur)))))"
  using assms
proof (induction good arbitrary: chunks cur D)
  case Nil
  then show ?case by simp
next
  case (Cons sent good)
  let ?w = "py_split sent"
  have wclean: "\<forall>t \<in> set ?w. clean_token t"
    using py_split_clean by blast
  show ?case
  proof (cases "length cur + length ?w \<le> CHUNK_WORDS")
    case True
    have c: "\<forall>t \<in> set (cur @ ?w). clean_token t"
      using Cons.prems(1) wclean by auto
    have hd: "chunks \<noteq> [] \<and> length chunks \<notin> D \<longrightarrow> OVERLAP_WORDS \<le> length (cur @ ?w) \<and>
        take OVERLAP_WORDS (cur @ ?w) = py_last_n OVERLAP_WORDS (py_split (last chunks))"
      using Cons.prems(3) by auto
    show ?thesis
      using Cons.IH [OF c Cons.prems(2) hd] True by simp
  next
    case False
    let ?cur' = "py_last_n OVERLAP_WORDS cur @ ?w"
    have c': "\<forall>t \<in> set ?cur'. clean_token t"
      using Cons.prems(1) wclean py_last_n_set [of OVERLAP_WORDS cur] by auto
    show ?thesis
    proof (cases "length cur > 80")
      case True
      have j: "py_split (join_sp cur) = cur"
        using Cons.prems(1) by (rule py_split_join)
      have ov: "\<forall>k. Suc k < length (chunks @ [join_sp cur]) \<and> Suc k \<notin> D \<longrightarrow>
          take OVERLAP_WORDS (py_split ((chunks @ [join_sp cur]) ! Suc k)) =
          py_last_n OVERLAP_WORDS (py_split ((chunks @ [join_sp cur]) ! k))"
        using Cons.prems(2,3) by (intro overlap_snoc_unless) (simp_all add: j)
      have len: "length (py_last_n OVERLAP_WORDS cur) = OVERLAP_WORDS"
        using True by (simp add: py_last_n_length OVERLAP_WORDS_def)
      have hd: "chunks @ [join_sp cur] \<noteq> [] \<and> length (chunks @ [join_sp cur]) \<notin> D \<longrightarrow>
          OVERLAP_WORDS \<le> length ?cur' \<and>
          take OVERLAP_WORDS ?cur' = py_last_n OVERLAP_WORDS (py_split (last (chunks @ [join_sp cur])))"
        using len by (simp add: j)
      show ?thesis
        using Cons.IH [OF c' ov hd] False True by simp
    next
      case no: False
      have ov: "\<forall>k. Suc k < length chunks \<and> Suc k \<notin> insert (length chunks) D \<longrightarrow>
          take OVERLAP_WORDS (py_split (chunks ! Suc k)) =
          py_last_n OVERLAP_WORDS (py_split (chunks ! k))"
        using Cons.prems(2) by simp
      have hd: "chunks \<noteq> [] \<and> length chunks \<notin> insert (length chunks) D \<longrightarrow>
          OVERLAP_WORDS \<le> length ?cur' \<and>
          take OVERLAP_WORDS ?cur' = py_last_n OVERLAP_WORDS (py_split (last chunks))"
        by simp
      show ?thesis
        using Cons.IH [OF c' ov hd] False no by simp
    qed
  qed
qed

text \<open>
  Claim C2, as the code has it. Whenever the assembler emits both chunk \<open>k\<close> and chunk
  \<open>k + 1\<close> and drops no buffer between the two emissions, that is, at a time when
  exactly \<open>k + 1\<close> chunks have been emitted, the last 30 words of chunk \<open>k\<close> are, in
  order, the first 30 words of chunk \<open>k + 1\<close>.
\<close>

theorem overlap_carry_over:
  assumes "Suc k < length (ChunkAssembler good)" and "Suc k \<notin> set (drops good [] [])"
  shows "take OVERLAP_WORDS (py_split (ChunkAssembler good ! Suc k)) =
     py_last_n OVERLAP_WORDS (py_split (ChunkAssembler good ! k))"
proof -
  let ?chunks = "fst (chunk_loop good [] [])"
  let ?cur = "snd (chunk_loop good [] [])"
  let ?D = "set (drops good [] [])"
  have inv: "(\<forall>w \<in> set ?cur. clean_token w) \<and>
     (\<forall>k. Suc k < length ?chunks \<and> Suc k \<notin> ?D \<longrightarrow>
        take OVERLAP_WORDS (py_split (?chunks ! Suc k)) =
        py_last_n OVERLAP_WORDS (py_split (?chunks ! k))) \<and>
     (?chunks \<noteq> [] \<and> length ?chunks \<notin> ?D \<longrightarrow> OVERLAP_WORDS \<le> length ?cur \<and>
        take OVERLAP_WORDS ?cur = py_last_n OVERLAP_WORDS (py_split (last ?chunks)))"
    using chunk_loop_overlap_unless [of "[]" "[]" "{}" good] by simp
  show ?thesis
  proof (cases "length ?cur > 80")
    case True
    have j: "py_split (join_sp ?cur) = ?cur"
      using inv by (intro py_split_join) simp
    have "\<forall>k. Suc k < length (?chunks @ [join_sp ?cur]) \<and> Suc k \<notin> ?D \<longrightarrow>
        take OVERLAP_WORDS (py_split ((?chunks @ [join_sp ?cur]) ! Suc k)) =
        py_last_n OVERLAP_WORDS (py_split ((?chunks @ [join_sp ?cur]) ! k))"
      using inv by (intro overlap_snoc_unless) (simp_all add: j)
    then show ?thesis
      using assms True unfolding assembler_flush by simp
  next
    case False
    then show ?thesis
      using assms inv unfolding assembler_flush by simp
  qed
qed

text \<open>
  A run on sentences of 170, 140, 20 and 140 words: three chunks, and one buffer
  dropped after the second. The first two chunks overlap.
\<close>

theorem overlap_carry_over_witness:
  "Suc 0 < length (ChunkAssembler
     [words_sentence 0 170, words_sentence 170 310, words_sentence 310 330, words_sentence 330 470]) \<and>
   Suc 0 \<notin> set (drops
     [words_sentence 0 170, words_sentence 170 310, words_sentence 310 330, words_sentence 330 470]
     [] []) \<and>
   drops
     [words_sentence 0 170, words_sentence 170 310, words_sentence 310 330, words_sentence 330 470]
     [] [] = [2] \<and>
   py_last_n OVERLAP_WORDS (py_split (ChunkAssembler
     [words_sentence 0 170, words_sentence 170 310, words_sentence 310 330, words_sentence 330 470]
     ! 0)) = map wd [140..<170] \<and>
   take OVERLAP_WORDS (py_split (ChunkAssembler
     [words_sentence 0 170, words_sentence 170 310, words_sentence 310 330, words_sentence 330 470]
     ! Suc 0)) = map wd [140..<170]"
proof -
  have d: "drops
     [words_sentence 0 170, words_sentence 170 310, words_sentence 310 330, words_sentence 330 470]
     [] [] = [2]"
    by (simp add: chunk_eval)
  have k: "Suc 0 < length (ChunkAssembler
     [words_sentence 0 170, words_sentence 170 310, words_sentence 310 330, words_sentence 330 470])"
    by (simp add: chunk_eval del: join_sp.simps)
  have n: "Suc 0 \<notin> set (drops
     [words_sentence 0 170, words_sentence 170 310, words_sentence 310 330, words_sentence 330 470]
     [] [])"
    unfolding d by simp
  have c: "ChunkAssembler
     [words_sentence 0 170, words_sentence 170 310, words_sentence 310 330, words_sentence 330 470]
     ! 0 = words_sentence 0 170"
    by (simp add: chunk_eval words_sentence_def [symmetric] del: join_sp.simps)
  have t: "py_last_n OVERLAP_WORDS (py_split (ChunkAssembler
     [words_sentence 0 170, words_sentence 170 310, words_sentence 310 330, words_sentence 330 470]
     ! 0)) = map wd [140..<170]"
    unfolding c by (simp add: chunk_eval)
  from overlap_carry_over [OF k n] d k n t show ?thesis
    by simp
qed

text \<open>
  Claim C2 as stated fails: of sentences of 170, 20 and 140 words the assembler emits
  two chunks, the first after the second sentence; the third sentence makes it drop all
  but the last 30 words of the buffer of 50, and the second chunk begins with the
  words 160 to 189, while the first ends with the words 140 to 169.
\<close>

theorem overlap_carry_over_counterexample:
  "length (ChunkAssembler [words_sentence 0 170, words_sentence 170 190, words_sentence 190 330]) = 2 \<and>
   drops [words_sentence 0 170, words_sentence 170 190, words_sentence 190 330] [] [] = [1] \<and>
   py_last_n 30 (py_split
     (ChunkAssembler [words_sentence 0 170, words_sentence 170 190, words_sentence 190 330] ! 0))
   \<noteq> take 30 (py_split
     (ChunkAssembler [words_sentence 0 170, words_sentence 170 190, words_sentence 190 330] ! 1))"
proof -
  have "wd 140 \<noteq> wd 160"
    by (simp add: wd_def)
  then show ?thesis
    by (simp add: chunk_eval py_split_join wd_clean del: join_sp.simps)
qed

section \<open>DatasetExporter: the pair dataset and the split\<close>

lemma negative_loop_length:
  "length (fst (negative_loop R chunks k g pairs)) = length pairs + k"
  by (induction k arbitrary: g pairs) (auto split: prod.splits)

lemma export_pairs_length:
  "length (fst (export_pairs R g chunks)) =
     (if 2 \<le> length chunks then (length chunks - 1) + length chunks else length chunks - 1)"
  by (simp add: export_pairs_def Let_def positive_pairs_def negative_loop_length)

lemma DatasetExporter_parts:
  "DatasetExporter R g raw_chunks =
     (make_records (map clean_chunk raw_chunks),
      fst (export_pairs R g (map clean_chunk raw_chunks)),
      fst (export_split R (snd (export_pairs R g (map clean_chunk raw_chunks)))
             (make_records (map clean_chunk raw_chunks))))"
  by (simp add: DatasetExporter_def Let_def split: prod.splits)

lemma negative_loop_unfold:
  "0 < k \<Longrightarrow> negative_loop R chunks k g pairs =
     (case rnd_sample2 R chunks g of
        ((a, b), g') \<Rightarrow>
          negative_loop R chunks (k - 1) g' (pairs @ [\<lparr>text_a = a, text_b = b, label = 0\<rparr>]))"
  by (cases k) simp_all

lemmas export_eval = export_pairs_def positive_pairs_def counter_random_def Let_def
  negative_loop_unfold asc_def numeral_2_eq_2 [symmetric]

text \<open>
  Claim C7. The number of pair records is \<open>(len(chunks) - 1) + len(chunks)\<close> when there
  are at least two chunks, and \<open>max(len(chunks) - 1, 0)\<close> otherwise; both for the pair
  export on its chunks and for the exporter on the chunks it loads.
\<close>

theorem pair_count:
  "int (length (fst (export_pairs R g chunks))) =
     (if 2 \<le> length chunks then (int (length chunks) - 1) + int (length chunks)
      else max (int (length chunks) - 1) 0) \<and>
   int (length (fst (snd (DatasetExporter R g raw_chunks)))) =
     (if 2 \<le> length raw_chunks then (int (length raw_chunks) - 1) + int (length raw_chunks)
      else max (int (length raw_chunks) - 1) 0)"
  unfolding DatasetExporter_parts fst_conv snd_conv export_pairs_length by auto

theorem pair_count_witness:
  "int (length (fst (export_pairs counter_random 0 [asc ''chunk one'', asc ''chunk two'']))) = 3 \<and>
   int (length (fst (snd (DatasetExporter counter_random 0 [asc ''only chunk''])))) = 0"
  using pair_count [of counter_random 0 "[asc ''chunk one'', asc ''chunk two'']" "[asc ''only chunk'']"]
  by simp

lemma export_pairs_seeded: "fst (export_pairs R g chunks) = fst (export_pairs R g' chunks)"
  by (simp add: export_pairs_def Let_def)

lemma export_split_seeded: "fst (export_split R g records) = fst (export_split R g' records)"
  by (simp add: export_split_def Let_def)

text \<open>
  Claim C8. Two runs of the exporter on the same chunks give the same pairs, the negative
  ones included, and the same train, validation and test lists, in whatever states
  \<open>g\<close> and \<open>g'\<close> the two runs find the generator: both the negative sampling and the
  shuffle start from the state that the seed 42 sets.
\<close>

theorem export_deterministic:
  "fst (export_pairs R g chunks) = fst (export_pairs R g' chunks) \<and>
   fst (export_split R g records) = fst (export_split R g' records) \<and>
   DatasetExporter R g raw_chunks = DatasetExporter R g' raw_chunks"
proof -
  have "DatasetExporter R g raw_chunks = DatasetExporter R g' raw_chunks"
    unfolding DatasetExporter_parts
    using export_pairs_seeded [of R g "map clean_chunk raw_chunks" g']
      export_split_seeded [of R "snd (export_pairs R g (map clean_chunk raw_chunks))"
         "make_records (map clean_chunk raw_chunks)"
         "snd (export_pairs R g' (map clean_chunk raw_chunks))"]
    by simp
  then show ?thesis
    using export_pairs_seeded [of R g chunks g'] export_split_seeded [of R g records g']
    by simp
qed

theorem export_deterministic_witness:
  "fst (export_pairs counter_random 0 [asc ''chunk one'', asc ''chunk two'']) =
     fst (export_pairs counter_random 7 [asc ''chunk one'', asc ''chunk two'']) \<and>
   fst (export_split counter_random 0 (make_records [asc ''chunk one'', asc ''chunk two''])) =
     fst (export_split counter_random 7 (make_records [asc ''chunk one'', asc ''chunk two''])) \<and>
   DatasetExporter counter_random 0 [asc ''chunk one'', asc ''chunk two''] =
     DatasetExporter counter_random 7 [asc ''chunk one'', asc ''chunk two'']"
  using export_deterministic [of counter_random 0 "[asc ''chunk one'', asc ''chunk two'']" 7
      "make_records [asc ''chunk one'', asc ''chunk two'']" "[asc ''chunk one'', asc ''chunk two'']"]
  by simp

lemma negative_loop_members:
  assumes "sample_distinct R" and "2 \<le> length chunks"
    and "p \<in> set (fst (negative_loop R chunks k g pairs))"
  shows "p \<in> set pairs \<or>
     (label p = 0 \<and> (\<exists>i j. i < length chunks \<and> j < length chunks \<and> i \<noteq> j \<and>
        text_a p = chunks ! i \<and> text_b p = chunks ! j))"
  using assms(3)
proof (induction k arbitrary: g pairs)
  case 0
  then show ?case by simp
next
  case (Suc k)
  obtain a b g' where s: "rnd_sample2 R chunks g = ((a, b), g')"
    by (metis prod.exhaust)
  have "case fst (rnd_sample2 R chunks g) of
      (a, b) \<Rightarrow> \<exists>i j. i < length chunks \<and> j < length chunks \<and> i \<noteq> j \<and>
        a = chunks ! i \<and> b = chunks ! j"
    using assms(1) [unfolded sample_distinct_def, rule_format, OF assms(2), of g] .
  then have ij: "\<exists>i j. i < length chunks \<and> j < length chunks \<and> i \<noteq> j \<and>
      a = chunks ! i \<and> b = chunks ! j"
    by (simp add: s)
  from Suc.prems s
  have "p \<in> set (fst (negative_loop R chunks k g'
           (pairs @ [\<lparr>text_a = a, text_b = b, label = 0\<rparr>])))"
    by simp
  from Suc.IH [OF this]
  consider "p \<in> set pairs" | "p = \<lparr>text_a = a, text_b = b, label = 0\<rparr>"
    | "label p = 0 \<and> (\<exists>i j. i < length chunks \<and> j < length chunks \<and> i \<noteq> j \<and>
        text_a p = chunks ! i \<and> text_b p = chunks ! j)"
    by auto
  then show ?case
  proof cases
    case 2
    then have "label p = 0 \<and> text_a p = a \<and> text_b p = b"
      by simp
    with ij show ?thesis by blast
  qed auto
qed

lemma counter_random_distinct: "sample_distinct counter_random"
  unfolding sample_distinct_def
proof (intro allI impI)
  fix population :: "ustr list" and g :: nat
  define n where "n = length population"
  assume "2 \<le> length population"
  then have n: "2 \<le> n" by (simp add: n_def)
  define i where "i = g mod n"
  define k where "k = (g div n) mod (n - 1)"
  define j where "j = (i + 1 + k) mod n"
  have i: "i < n" using n by (simp add: i_def)
  have k: "k < n - 1" using n by (simp add: k_def)
  have j: "j < n" using n by (simp add: j_def)
  have "j \<noteq> i"
  proof (cases "i + 1 + k < n")
    case True
    then show ?thesis by (simp add: j_def)
  next
    case False
    then have "(i + 1 + k) mod n = i + 1 + k - n"
      using i k by (simp add: mod_if)
    then show ?thesis using i k False by (simp add: j_def)
  qed
  moreover have "fst (rnd_sample2 counter_random population g) = (population ! i, population ! j)"
    by (simp add: counter_random_def Let_def n_def i_def j_def k_def)
  ultimately show "case fst (rnd_sample2 counter_random population g) of
      (a, b) \<Rightarrow> \<exists>i j. i < length population \<and> j < length population \<and> i \<noteq> j \<and>
        a = population ! i \<and> b = population ! j"
    using i j unfolding n_def by auto
qed

text \<open>
  Claim C1, as the code has it. The negative pairs are drawn by
  \<^verbatim>\<open>random.sample(chunks, 2)\<close> with no check of adjacency: every pair record with label 0
  holds the chunks of two different positions of the chunk sequence, which may be
  adjacent, and with exactly two chunks always are.
\<close>

theorem negatives_distinct_positions:
  assumes "sample_distinct R" and "p \<in> set (fst (export_pairs R g chunks))" and "label p = 0"
  shows "(\<exists>i j. i < length chunks \<and> j < length chunks \<and> i \<noteq> j \<and>
            text_a p = chunks ! i \<and> text_b p = chunks ! j) \<and>
         (length chunks = 2 \<longrightarrow> from_adjacent chunks p)"
proof -
  have pos: "q \<in> set (positive_pairs chunks) \<Longrightarrow> label q = 1" for q
    by (auto simp: positive_pairs_def)
  have two: "2 \<le> length chunks"
  proof (rule ccontr)
    assume "\<not> 2 \<le> length chunks"
    then have "p \<in> set (positive_pairs chunks)"
      using assms(2) by (simp add: export_pairs_def Let_def)
    with pos assms(3) show False by fastforce
  qed
  then have "p \<in> set (fst (negative_loop R chunks (length chunks) (rnd_seed R 42)
                 (positive_pairs chunks)))"
    using assms(2) by (simp add: export_pairs_def Let_def)
  from negative_loop_members [OF assms(1) two this] pos assms(3)
  obtain i j where ij: "i < length chunks" "j < length chunks" "i \<noteq> j"
      "text_a p = chunks ! i" "text_b p = chunks ! j"
    by fastforce
  have "from_adjacent chunks p" if "length chunks = 2"
  proof -
    have "(i = 0 \<and> j = 1) \<or> (i = 1 \<and> j = 0)"
      using ij that by auto
    then show ?thesis
      unfolding from_adjacent_def using ij that by (intro exI [of _ 0]) auto
  qed
  with ij show ?thesis by blast
qed

theorem negatives_distinct_positions_witness:
  "sample_distinct counter_random \<and>
   \<lparr>text_a = asc ''chunk two'', text_b = asc ''chunk one'', label = 0\<rparr>
     \<in> set (fst (export_pairs counter_random 0 [asc ''chunk one'', asc ''chunk two''])) \<and>
   from_adjacent [asc ''chunk one'', asc ''chunk two'']
     \<lparr>text_a = asc ''chunk two'', text_b = asc ''chunk one'', label = 0\<rparr>"
proof -
  have m: "\<lparr>text_a = asc ''chunk two'', text_b = asc ''chunk one'', label = 0\<rparr>
     \<in> set (fst (export_pairs counter_random 0 [asc ''chunk one'', asc ''chunk two'']))"
    by (simp add: export_eval)
  show ?thesis
    using negatives_distinct_positions [OF counter_random_distinct m] m counter_random_distinct
    by simp
qed

text \<open>
  Claim C1 as stated fails: of two chunks, the exporter makes a pair record with label 0
  out of the chunks at positions 0 and 1.
\<close>

theorem negatives_adjacent_counterexample:
  "2 \<le> length [asc ''chunk one'', asc ''chunk two''] \<and>
   \<lparr>text_a = asc ''chunk one'', text_b = asc ''chunk two'', label = 0\<rparr>
     \<in> set (fst (export_pairs counter_random 0 [asc ''chunk one'', asc ''chunk two''])) \<and>
   label \<lparr>text_a = asc ''chunk one'', text_b = asc ''chunk two'', label = 0\<rparr> = 0 \<and>
   from_adjacent [asc ''chunk one'', asc ''chunk two'']
     \<lparr>text_a = asc ''chunk one'', text_b = asc ''chunk two'', label = 0\<rparr>"
proof -
  have "from_adjacent [asc ''chunk one'', asc ''chunk two'']
     \<lparr>text_a = asc ''chunk one'', text_b = asc ''chunk two'', label = 0\<rparr>"
    unfolding from_adjacent_def by (intro exI [of _ 0]) simp
  then show ?thesis
    by (simp add: export_eval)
qed

end
